theory Spec2Isabelle
  imports Main
begin

section \<open>The environment of \<open>rcv_logs.py\<close>\<close>

text \<open>
  The client talks to the device over one serial port and writes files below an output
  directory. Both are made explicit in one record that every operation takes and returns.

  \<^item> Bytes are \<open>char\<close> (8 bits). Text lines are kept as byte strings: Python decodes
    them as UTF-8, which is the identity on ASCII, and the protocol's keywords, digits and
    separators are ASCII. The model agrees with the program on lines made of ASCII bytes;
    where a result depends on how a line is stripped or read as a number, the theorems
    assume that the line is ASCII.
  \<^item> The clock counts tenths of a second. The port is opened with \<open>timeout=0.2\<close>: a
    \<open>ser.read\<close> that finds nothing waits two ticks and returns no byte, a read that finds
    bytes returns at once. What the device will deliver is a list of events: \<open>Data bs\<close>,
    bytes ready to be read, and \<open>Idle\<close>, one timeout's worth of silence. When the list
    is used up the device stays silent.
  \<^item> The file system maps a path to a file's bytes or to a directory. \<open>os.path\<close> is
    \<open>posixpath\<close> or, on Windows, \<open>ntpath\<close>; which of the two is the field \<open>nt\<close>.
  \<^item> Every \<open>print\<close> appends a message to \<open>out\<close>; the messages are a datatype with one
    constructor for each \<open>print\<close> of the source.
\<close>

datatype event = Data string | Idle

datatype node = File string | Dir

datatype msg =
    ErrNoHeader string
  | Esp32Error string
  | ErrUnexpectedHeader string
  | ErrHeaderParse string
  | InfoReceiving string int string
  | ErrShort int
  | ErrFooter "string option"
  | OkDone
  | WarnListLine string
  | InfoNoFiles
  | InfoListing "(string \<times> int) list"
  | WarnInput
  | InfoNoTargets
  | Fail string
  | Summary nat nat
  | NoPort
  | InfoOpen string
  | ErrOpen

datatype error = FileNotFoundError | FileExistsError | IsADirectoryError | PermissionError

record world =
  wire :: "event list"
  clock :: nat
  sent :: "string list"
  port_open :: bool
  fs :: "string \<rightharpoonup> node"
  out :: "msg list"
  nt :: bool

definition print :: "msg \<Rightarrow> world \<Rightarrow> world" where
  "print m w = w\<lparr>out := out w @ [m]\<rparr>"

section \<open>Python's string operations\<close>

definition CR :: char where "CR = CHR 0x0D"

definition LF :: char where "LF = CHR 0x0A"

definition CRLF :: string where "CRLF = [CR, LF]"

definition READ_LINE_TIMEOUT_S :: nat where "READ_LINE_TIMEOUT_S = 50"

definition READ_FILE_TIMEOUT_S :: nat where "READ_FILE_TIMEOUT_S = 600"

definition startswith :: "string \<Rightarrow> string \<Rightarrow> bool" where
  "startswith s p = (take (length p) s = p)"

definition endswith :: "string \<Rightarrow> string \<Rightarrow> bool" where
  "endswith s p = (length p \<le> length s \<and> drop (length s - length p) s = p)"

text \<open>\<open>str.isspace\<close> on the ASCII range: tab to carriage return, the four separators
  \<open>0x1C\<close> to \<open>0x1F\<close>, and the space.\<close>

definition is_space :: "char \<Rightarrow> bool" where
  "is_space c = (let n = (of_char c :: nat) in (9 \<le> n \<and> n \<le> 13) \<or> (28 \<le> n \<and> n \<le> 32))"

definition strip :: "string \<Rightarrow> string" where
  "strip s = rev (dropWhile is_space (rev (dropWhile is_space s)))"

definition is_digit :: "char \<Rightarrow> bool" where
  "is_digit c = (let n = (of_char c :: nat) in 48 \<le> n \<and> n \<le> 57)"

definition digit_val :: "char \<Rightarrow> nat" where
  "digit_val c = (of_char c :: nat) - 48"

definition is_ascii :: "char \<Rightarrow> bool" where
  "is_ascii c = ((of_char c :: nat) < 128)"

definition ascii :: "string \<Rightarrow> bool" where
  "ascii s = list_all is_ascii s"

text \<open>\<open>bytes.decode("utf-8", errors="replace")\<close> on ASCII bytes.\<close>

definition decode :: "string \<Rightarrow> string" where
  "decode bs = bs"

text \<open>
  \<open>int(s)\<close> in base 10 on an ASCII string. The white space that \<open>int\<close> skips at both
  ends is that of C (tab to carriage return, and the space), not the larger set of
  \<open>str.strip\<close>. One sign is allowed, then digits, where single underscores may stand between
  two digits. More than \<open>sys.int_max_str_digits\<close> digits (4300 by default) are refused.
  Anything else raises \<open>ValueError\<close>, which is \<open>None\<close> here.
\<close>

definition is_c_space :: "char \<Rightarrow> bool" where
  "is_c_space c = (let n = (of_char c :: nat) in (9 \<le> n \<and> n \<le> 13) \<or> n = 32)"

definition c_strip :: "string \<Rightarrow> string" where
  "c_strip s = rev (dropWhile is_c_space (rev (dropWhile is_c_space s)))"

definition int_max_str_digits :: nat where
  "int_max_str_digits = 4300"

fun py_digits :: "nat \<Rightarrow> string \<Rightarrow> nat option" where
  "py_digits acc [] = Some acc"
| "py_digits acc (c # cs) =
     (if is_digit c then py_digits (acc * 10 + digit_val c) cs
      else if c = CHR ''_'' then
        (case cs of
           [] \<Rightarrow> None
         | d # ds \<Rightarrow> if is_digit d then py_digits (acc * 10 + digit_val d) ds else None)
      else None)"

definition py_nat :: "string \<Rightarrow> nat option" where
  "py_nat s =
     (if int_max_str_digits < length (filter is_digit s) then None
      else (case s of
              [] \<Rightarrow> None
            | c # cs \<Rightarrow> if is_digit c then py_digits (digit_val c) cs else None))"

definition py_int :: "string \<Rightarrow> int option" where
  "py_int s =
     (case c_strip s of
        [] \<Rightarrow> None
      | c # cs \<Rightarrow>
          if c = CHR ''-'' then map_option (\<lambda>n. - int n) (py_nat cs)
          else if c = CHR ''+'' then map_option int (py_nat cs)
          else map_option int (py_nat (c # cs)))"

text \<open>\<open>s.rsplit(sep, 1)\<close> for a one-character separator: the text before the last
  separator and the text after it, or \<open>None\<close> where the separator does not occur (the
  source then fails to unpack one element into two names).\<close>

definition rsplit1 :: "char \<Rightarrow> string \<Rightarrow> (string \<times> string) option" where
  "rsplit1 sep s =
     (if sep \<in> set s
      then Some (rev (tl (dropWhile (\<lambda>c. c \<noteq> sep) (rev s))), rev (takeWhile (\<lambda>c. c \<noteq> sep) (rev s)))
      else None)"

text \<open>\<open>s.split(sep, 1)\<close> for a one-character separator, likewise.\<close>

definition split1 :: "char \<Rightarrow> string \<Rightarrow> (string \<times> string) option" where
  "split1 sep s =
     (if sep \<in> set s
      then Some (takeWhile (\<lambda>c. c \<noteq> sep) s, tl (dropWhile (\<lambda>c. c \<noteq> sep) s))
      else None)"

text \<open>\<open>a, b, c = s.split(" ", 2)\<close>: three parts, cut at the first two spaces; with
  fewer than two spaces the unpacking raises.\<close>

definition split_sp2 :: "string \<Rightarrow> (string \<times> string \<times> string) option" where
  "split_sp2 s =
     (case split1 (CHR '' '') s of
        None \<Rightarrow> None
      | Some (a, r) \<Rightarrow>
          (case split1 (CHR '' '') r of
             None \<Rightarrow> None
           | Some (b, c) \<Rightarrow> Some (a, b, c)))"

text \<open>\<open>posixpath.basename\<close> and \<open>posixpath.join\<close> of two parts.\<close>

definition basename :: "string \<Rightarrow> string" where
  "basename p = rev (takeWhile (\<lambda>c. c \<noteq> CHR ''/'') (rev p))"

definition path_join :: "string \<Rightarrow> string \<Rightarrow> string" where
  "path_join a b =
     (if startswith b ''/'' then b
      else if a = [] \<or> endswith a ''/'' then a @ b
      else a @ ''/'' @ b)"

text \<open>
  \<open>ntpath\<close> (Python 3.11): \<open>splitdrive\<close>, \<open>basename\<close> and \<open>join\<close> of two parts. Both
  the backslash and the slash separate; a drive is a letter with a colon or a UNC share.
\<close>

definition BSL :: char where "BSL = CHR 0x5C"

definition is_sep :: "char \<Rightarrow> bool" where
  "is_sep c = (c = BSL \<or> c = CHR ''/'')"

definition ascii_upper :: "char \<Rightarrow> char" where
  "ascii_upper c =
     (let n = (of_char c :: nat) in if 97 \<le> n \<and> n \<le> 122 then char_of (n - 32) else c)"

definition ascii_lower :: "char \<Rightarrow> char" where
  "ascii_lower c =
     (let n = (of_char c :: nat) in if 65 \<le> n \<and> n \<le> 90 then char_of (n + 32) else c)"

text \<open>\<open>s.find(c, start)\<close>, with \<open>None\<close> for \<open>-1\<close>.\<close>

definition find_from :: "char \<Rightarrow> nat \<Rightarrow> string \<Rightarrow> nat option" where
  "find_from c start s =
     (if c \<in> set (drop start s)
      then Some (start + length (takeWhile (\<lambda>x. x \<noteq> c) (drop start s)))
      else None)"

definition nt_splitdrive :: "string \<Rightarrow> string \<times> string" where
  "nt_splitdrive p =
     (if 2 \<le> length p then
        (let normp = map (\<lambda>c. if c = CHR ''/'' then BSL else c) p in
         if take 2 normp = [BSL, BSL] then
           (let start = (if map ascii_upper (take 8 normp) = [BSL, BSL] @ ''?'' @ [BSL] @ ''UNC'' @ [BSL]
                         then 8 else 2 :: nat)
            in case find_from BSL start normp of
                 None \<Rightarrow> (p, [])
               | Some index \<Rightarrow>
                   (case find_from BSL (index + 1) normp of
                      None \<Rightarrow> (p, [])
                    | Some index2 \<Rightarrow> (take index2 p, drop index2 p)))
         else if take 1 (drop 1 normp) = '':'' then (take 2 p, drop 2 p)
         else ([], p))
      else ([], p))"

definition nt_basename :: "string \<Rightarrow> string" where
  "nt_basename p = rev (takeWhile (\<lambda>c. \<not> is_sep c) (rev (snd (nt_splitdrive p))))"

text \<open>The end of \<open>ntpath.join\<close>: a separator is put between a UNC drive and a relative
  path.\<close>

definition nt_join_result :: "string \<Rightarrow> string \<Rightarrow> string" where
  "nt_join_result result_drive result_path =
     (if result_path \<noteq> [] \<and> \<not> is_sep (hd result_path) \<and> result_drive \<noteq> [] \<and>
         last result_drive \<noteq> CHR '':''
      then result_drive @ [BSL] @ result_path
      else result_drive @ result_path)"

definition nt_join :: "string \<Rightarrow> string \<Rightarrow> string" where
  "nt_join path p =
     (case nt_splitdrive path of
        (result_drive, result_path) \<Rightarrow>
          (case nt_splitdrive p of
             (p_drive, p_path) \<Rightarrow>
               if p_path \<noteq> [] \<and> is_sep (hd p_path) then
                 nt_join_result (if p_drive \<noteq> [] \<or> result_drive = [] then p_drive else result_drive)
                   p_path
               else if p_drive \<noteq> [] \<and> p_drive \<noteq> result_drive \<and>
                       map ascii_lower p_drive \<noteq> map ascii_lower result_drive then
                 nt_join_result p_drive p_path
               else
                 nt_join_result
                   (if p_drive \<noteq> [] \<and> p_drive \<noteq> result_drive then p_drive else result_drive)
                   ((if result_path \<noteq> [] \<and> \<not> is_sep (last result_path)
                     then result_path @ [BSL] else result_path) @ p_path)))"

text \<open>\<open>os.path.basename\<close> and \<open>os.path.join\<close>: the functions of the platform.\<close>

definition os_basename :: "bool \<Rightarrow> string \<Rightarrow> string" where
  "os_basename windows p = (if windows then nt_basename p else basename p)"

definition os_join :: "bool \<Rightarrow> string \<Rightarrow> string \<Rightarrow> string" where
  "os_join windows a b = (if windows then nt_join a b else path_join a b)"

section \<open>The serial port\<close>

text \<open>\<open>ser.read(n)\<close> with the port's timeout of two ticks.\<close>

definition ser_read :: "nat \<Rightarrow> world \<Rightarrow> string \<times> world" where
  "ser_read n w =
     (case wire w of
        [] \<Rightarrow> ([], w\<lparr>clock := clock w + 2\<rparr>)
      | Idle # es \<Rightarrow> ([], w\<lparr>wire := es, clock := clock w + 2\<rparr>)
      | Data bs # es \<Rightarrow>
          if bs = [] then ([], w\<lparr>wire := es, clock := clock w + 2\<rparr>)
          else (take n bs, w\<lparr>wire := (if drop n bs = [] then es else Data (drop n bs) # es)\<rparr>))"

definition send_cmd :: "string \<Rightarrow> world \<Rightarrow> world" where
  "send_cmd cmd w = w\<lparr>sent := sent w @ [cmd @ CRLF]\<rparr>"

lemma send_cmd_frame [simp]:
  "wire (send_cmd c w) = wire w" "clock (send_cmd c w) = clock w" "fs (send_cmd c w) = fs w"
  "out (send_cmd c w) = out w" "port_open (send_cmd c w) = port_open w"
  "nt (send_cmd c w) = nt w"
  by (simp_all add: send_cmd_def)

fun event_size :: "event \<Rightarrow> nat" where
  "event_size Idle = 1"
| "event_size (Data bs) = 1 + length bs"

definition wire_size :: "world \<Rightarrow> nat" where
  "wire_size w = sum_list (map event_size (wire w))"

lemma ser_read_progress:
  assumes "ser_read n w = (b, w')" and "0 < n" and "clock w < d"
  shows "wire_size w' + (d - clock w') < wire_size w + (d - clock w)"
  using assms
  by (auto simp: ser_read_def wire_size_def split: list.splits event.splits if_splits)

lemma ser_read_mono:
  assumes "ser_read n w = (b, w')"
  shows "clock w \<le> clock w'" and "wire_size w' \<le> wire_size w"
  using assms
  by (auto simp: ser_read_def wire_size_def split: list.splits event.splits if_splits)

lemma ser_read_data:
  assumes "ser_read n w = (b, w')" and "b \<noteq> []" and "0 < n"
  shows "wire_size w' < wire_size w"
  using assms
  by (auto simp: ser_read_def wire_size_def split: list.splits event.splits if_splits)

lemma ser_read_frame:
  assumes "ser_read n w = (b, w')"
  shows "fs w' = fs w" and "out w' = out w" and "sent w' = sent w" and "port_open w' = port_open w"
    and "nt w' = nt w"
  using assms
  by (auto simp: ser_read_def split: list.splits event.splits if_splits)

text \<open>\<open>read_line\<close>: one byte at a time until the buffer ends in CR LF or the deadline has
  passed. The loop is the recursion; \<open>deadline\<close> is the absolute time computed on entry.\<close>

function read_line_loop :: "nat \<Rightarrow> string \<Rightarrow> world \<Rightarrow> string option \<times> world" where
  "read_line_loop deadline buf w =
     (if clock w < deadline then
        (case ser_read 1 w of
           (b, w') \<Rightarrow>
             if b = [] then read_line_loop deadline buf w'
             else if endswith (buf @ b) CRLF
               then (Some (decode (take (length (buf @ b) - 2) (buf @ b))), w')
               else read_line_loop deadline (buf @ b) w')
      else (None, w))"
  by pat_completeness auto

termination
  by (relation "measure (\<lambda>(d, buf, w). wire_size w + (d - clock w))")
     (auto dest: ser_read_progress [OF sym, where n = "Suc 0"])

declare read_line_loop.simps [simp del]

declare decode_def [simp]

definition read_line :: "nat \<Rightarrow> world \<Rightarrow> string option \<times> world" where
  "read_line timeout_s w = read_line_loop (clock w + timeout_s) [] w"

lemma read_line_loop_None:
  "read_line_loop d buf w = (None, w') \<Longrightarrow> d \<le> clock w' \<and> clock w \<le> clock w' \<and> wire_size w' \<le> wire_size w"
  supply read_line_loop.simps [simp]
proof (induction d buf w rule: read_line_loop.induct)
  case (1 d buf w)
  show ?case
  proof (cases "clock w < d")
    case False
    with "1.prems" show ?thesis by (simp add: read_line_loop.simps)
  next
    case True
    obtain b v where r: "ser_read 1 w = (b, v)" by (cases "ser_read 1 w")
    from ser_read_mono [OF r] have m: "clock w \<le> clock v" "wire_size v \<le> wire_size w" .
    show ?thesis
    proof (cases "b = []")
      case True
      with \<open>clock w < d\<close> r "1.prems" have "read_line_loop d buf v = (None, w')" by simp
      with "1.IH"(1) [OF \<open>clock w < d\<close> r [symmetric] True] m show ?thesis by simp
    next
      case False
      with \<open>clock w < d\<close> r "1.prems"
      have e: "\<not> endswith (buf @ b) CRLF" and "read_line_loop d (buf @ b) v = (None, w')"
        by (auto split: if_splits)
      with "1.IH"(2) [OF \<open>clock w < d\<close> r [symmetric] False e] m show ?thesis by simp
    qed
  qed
qed

lemma read_line_loop_Some:
  "read_line_loop d buf w = (Some ln, w') \<Longrightarrow> clock w \<le> clock w' \<and> wire_size w' < wire_size w"
  supply read_line_loop.simps [simp]
proof (induction d buf w rule: read_line_loop.induct)
  case (1 d buf w)
  show ?case
  proof (cases "clock w < d")
    case False
    with "1.prems" show ?thesis by (simp add: read_line_loop.simps)
  next
    case True
    obtain b v where r: "ser_read 1 w = (b, v)" by (cases "ser_read 1 w")
    from ser_read_mono [OF r] have m: "clock w \<le> clock v" "wire_size v \<le> wire_size w" .
    show ?thesis
    proof (cases "b = []")
      case True
      with \<open>clock w < d\<close> r "1.prems" have "read_line_loop d buf v = (Some ln, w')" by simp
      with "1.IH"(1) [OF \<open>clock w < d\<close> r [symmetric] True] m show ?thesis by simp
    next
      case False
      from ser_read_data [OF r False] have lt: "wire_size v < wire_size w" by simp
      show ?thesis
      proof (cases "endswith (buf @ b) CRLF")
        case True
        with False \<open>clock w < d\<close> r "1.prems" have "w' = v" by simp
        with lt m show ?thesis by simp
      next
        case e: False
        with False \<open>clock w < d\<close> r "1.prems"
        have "read_line_loop d (buf @ b) v = (Some ln, w')" by simp
        with "1.IH"(2) [OF \<open>clock w < d\<close> r [symmetric] False e] m lt show ?thesis by simp
      qed
    qed
  qed
qed

lemma read_line_None:
  "read_line t w = (None, w') \<Longrightarrow> clock w + t \<le> clock w' \<and> wire_size w' \<le> wire_size w"
  unfolding read_line_def by (drule read_line_loop_None) simp

lemma read_line_Some:
  "read_line t w = (Some ln, w') \<Longrightarrow> clock w \<le> clock w' \<and> wire_size w' < wire_size w"
  unfolding read_line_def by (drule read_line_loop_Some) simp

section \<open>Listing\<close>

text \<open>The body of the \<open>try\<close> in \<open>request_list\<close>: the line is known to start with
  \<open>LIST:\<close>, so \<open>ln.split("LIST:", 1)\<close> leaves the text after these five characters;
  it is cut at its last colon and the second part goes to \<open>int\<close>. \<open>None\<close> stands for
  the exception that the \<open>except\<close> clause catches.\<close>

definition parse_list_line :: "string \<Rightarrow> (string \<times> int) option" where
  "parse_list_line ln =
     (case rsplit1 (CHR '':'') (drop 5 ln) of
        None \<Rightarrow> None
      | Some (path, size_s) \<Rightarrow>
          (case py_int size_s of
             None \<Rightarrow> None
           | Some sz \<Rightarrow> Some (strip path, sz)))"

function list_loop :: "nat \<Rightarrow> (string \<times> int) list \<Rightarrow> world \<Rightarrow> (string \<times> int) list \<times> world" where
  "list_loop start files w =
     (case read_line 20 w of
        (None, w') \<Rightarrow>
          if clock w' - start < 10 then list_loop start files w' else (files, w')
      | (Some ln, w') \<Rightarrow>
          if startswith ln ''LIST:'' then
            (case parse_list_line ln of
               Some d \<Rightarrow> list_loop start (files @ [d]) w'
             | None \<Rightarrow> list_loop start files (print (WarnListLine ln) w'))
          else if startswith ln ''ERR:'' then (files, print (Esp32Error ln) w')
          else (files, w'))"
  by pat_completeness auto

termination
proof (relation "measure (\<lambda>(start, files, w). wire_size w + (start + 10 - clock w))", goal_cases)
  case 1
  show ?case by simp
next
  case (2 start files w x w')
  from read_line_None [of 20 w w'] 2
  have "clock w + 20 \<le> clock w'" "wire_size w' \<le> wire_size w" "clock w' - start < 10"
    by simp_all
  then have "wire_size w' + (start + 10 - clock w') < wire_size w + (start + 10 - clock w)"
    by arith
  then show ?case by simp
next
  case 3
  then show ?case by (auto simp: print_def wire_size_def dest: read_line_Some [OF sym])
next
  case 4
  then show ?case by (auto simp: print_def wire_size_def dest: read_line_Some [OF sym])
qed

declare list_loop.simps [simp del]

definition request_list :: "world \<Rightarrow> (string \<times> int) list \<times> world" where
  "request_list w0 = (let w1 = send_cmd ''#LIST'' w0 in list_loop (clock w1) [] w1)"

section \<open>Download\<close>

text \<open>The \<open>try\<close> block of \<open>request_get\<close>: \<open>hdr.split(" ", 2)\<close> into three names and
  \<open>int(size_s.strip())\<close>.\<close>

definition parse_header :: "string \<Rightarrow> (string \<times> int) option" where
  "parse_header hdr =
     (case split_sp2 hdr of
        None \<Rightarrow> None
      | Some (_, recv_path, size_s) \<Rightarrow>
          (case py_int (strip size_s) of
             None \<Rightarrow> None
           | Some sz \<Rightarrow> Some (recv_path, sz)))"

text \<open>\<open>os.makedirs(out_dir, exist_ok=True)\<close>: the empty path and a path that names a
  file raise.\<close>

definition makedirs :: "string \<Rightarrow> world \<Rightarrow> error + world" where
  "makedirs d w =
     (if d = [] then Inl FileNotFoundError
      else (case fs w d of
              Some (File _) \<Rightarrow> Inl FileExistsError
            | _ \<Rightarrow> Inr (w\<lparr>fs := (fs w)(d \<mapsto> Dir)\<rparr>)))"

text \<open>\<open>open(out_path, "wb")\<close>: creates the file or truncates it. A path that names a
  directory (it ends in a separator, or in \<open>.\<close> or \<open>..\<close>, or a directory is there)
  raises: \<open>IsADirectoryError\<close>, on Windows \<open>PermissionError\<close>.\<close>

definition open_wb :: "string \<Rightarrow> world \<Rightarrow> error + world" where
  "open_wb p w =
     (if p = [] then Inl FileNotFoundError
      else if os_basename (nt w) p = [] \<or> os_basename (nt w) p = ''.'' \<or>
              os_basename (nt w) p = ''..'' \<or> fs w p = Some Dir
        then Inl (if nt w then PermissionError else IsADirectoryError)
      else Inr (w\<lparr>fs := (fs w)(p \<mapsto> File [])\<rparr>))"

definition file_bytes :: "world \<Rightarrow> string \<Rightarrow> string" where
  "file_bytes w p = (case fs w p of Some (File bs) \<Rightarrow> bs | _ \<Rightarrow> [])"

definition file_write :: "string \<Rightarrow> string \<Rightarrow> world \<Rightarrow> world" where
  "file_write p chunk w = w\<lparr>fs := (fs w)(p \<mapsto> File (file_bytes w p @ chunk))\<rparr>"

lemma file_write_frame [simp]:
  "wire (file_write p c w) = wire w" "clock (file_write p c w) = clock w"
  "wire_size (file_write p c w) = wire_size w" "out (file_write p c w) = out w"
  "sent (file_write p c w) = sent w" "port_open (file_write p c w) = port_open w"
  "nt (file_write p c w) = nt w"
  by (simp_all add: file_write_def wire_size_def)

lemma print_frame [simp]:
  "wire (print m w) = wire w" "clock (print m w) = clock w"
  "wire_size (print m w) = wire_size w" "fs (print m w) = fs w"
  "sent (print m w) = sent w" "port_open (print m w) = port_open w"
  "out (print m w) = out w @ [m]" "nt (print m w) = nt w"
  by (simp_all add: print_def wire_size_def)

text \<open>The \<open>while remaining > 0 and time.time() < deadline\<close> loop.\<close>

function recv_loop :: "string \<Rightarrow> nat \<Rightarrow> int \<Rightarrow> world \<Rightarrow> int \<times> world" where
  "recv_loop out_path deadline remaining w =
     (if 0 < remaining \<and> clock w < deadline then
        (case ser_read (nat (min remaining 4096)) w of
           (chunk, w') \<Rightarrow>
             if chunk = [] then recv_loop out_path deadline remaining w'
             else recv_loop out_path deadline (remaining - int (length chunk))
                    (file_write out_path chunk w'))
      else (remaining, w))"
  by pat_completeness auto

termination
  by (relation "measure (\<lambda>(p, d, r, w). wire_size w + (d - clock w))")
     (auto dest!: ser_read_progress [OF sym])

declare recv_loop.simps [simp del]

definition request_get :: "string \<Rightarrow> string \<Rightarrow> world \<Rightarrow> (error + bool) \<times> world" where
  "request_get path out_dir w0 =
     (let w1 = send_cmd (''#GET '' @ path) w0 in
      case read_line READ_LINE_TIMEOUT_S w1 of
        (None, w2) \<Rightarrow> (Inr False, print (ErrNoHeader path) w2)
      | (Some hdr, w2) \<Rightarrow>
          if startswith hdr ''ERR:'' then (Inr False, print (Esp32Error hdr) w2)
          else if \<not> startswith hdr ''FILEBEGIN '' then (Inr False, print (ErrUnexpectedHeader hdr) w2)
          else
            (case parse_header hdr of
               None \<Rightarrow> (Inr False, print (ErrHeaderParse hdr) w2)
             | Some (recv_path, sz) \<Rightarrow>
                 (case makedirs out_dir w2 of
                    Inl e \<Rightarrow> (Inl e, w2)
                  | Inr w3 \<Rightarrow>
                      let fname = os_basename (nt w0) (strip recv_path);
                          out_path = os_join (nt w0) out_dir fname;
                          w4 = print (InfoReceiving recv_path sz out_path) w3;
                          deadline = clock w4 + READ_FILE_TIMEOUT_S
                      in
                        (case open_wb out_path w4 of
                           Inl e \<Rightarrow> (Inl e, w4)
                         | Inr w5 \<Rightarrow>
                             (case recv_loop out_path deadline sz w5 of
                                (remaining, w6) \<Rightarrow>
                                  if remaining \<noteq> 0 then (Inr False, print (ErrShort remaining) w6)
                                  else
                                    (case read_line 50 w6 of
                                       (None, w7) \<Rightarrow> (Inr False, print (ErrFooter None) w7)
                                     | (Some footer, w7) \<Rightarrow>
                                         if \<not> startswith footer ''FILEEND''
                                         then (Inr False, print (ErrFooter (Some footer)) w7)
                                         else (Inr True, print OkDone w7)))))))"

section \<open>The command line program\<close>

text \<open>
  \<open>main\<close> after \<open>parse_args\<close>. What the program takes from outside the serial port is
  collected in \<open>env\<close>: the port that \<open>auto_detect_port\<close> finds, whether
  \<open>serial.Serial\<close> can open the port, and the line that \<open>input\<close> returns (\<open>None\<close>:
  \<open>input\<close> raises, as at end of input). An exception that leaves \<open>main\<close> is the first
  component of its result.
\<close>

record args =
  arg_port :: "string option"
  arg_baud :: int
  arg_out :: string
  arg_all :: bool

record env =
  detected_port :: "string option"
  open_ok :: bool
  stdin_line :: "string option"

text \<open>\<open>open_serial\<close>: the port is open, and \<open>time.sleep(0.3)\<close> has passed.\<close>

definition open_serial :: "world \<Rightarrow> world" where
  "open_serial w = w\<lparr>clock := clock w + 3, port_open := True\<rparr>"

definition ser_close :: "world \<Rightarrow> world" where
  "ser_close w = w\<lparr>port_open := False\<rparr>"

text \<open>\<open>sel.split()\<close>: the maximal runs of characters that are not white space.\<close>

fun split_ws :: "string \<Rightarrow> string \<Rightarrow> string list" where
  "split_ws cur [] = (if cur = [] then [] else [cur])"
| "split_ws cur (c # cs) =
     (if is_space c then (if cur = [] then split_ws [] cs else cur # split_ws [] cs)
      else split_ws (cur @ [c]) cs)"

text \<open>The \<open>try\<close> block around \<open>input\<close>; \<open>None\<close> is the caught exception.\<close>

definition select_targets :: "(string \<times> int) list \<Rightarrow> string option \<Rightarrow> (string \<times> int) list option" where
  "select_targets files line =
     (case line of
        None \<Rightarrow> None
      | Some l \<Rightarrow>
          (let sel = strip l in
           if sel = [] then Some []
           else (case those (map py_int (split_ws [] sel)) of
                   None \<Rightarrow> None
                 | Some idxs \<Rightarrow>
                     Some (map (\<lambda>i. files ! nat i)
                            (filter (\<lambda>i. 0 \<le> i \<and> i < int (length files)) idxs)))))"

text \<open>The \<open>for path, size in targets\<close> loop with its counter \<open>ok\<close>.\<close>

fun batch_loop :: "string \<Rightarrow> (string \<times> int) list \<Rightarrow> nat \<Rightarrow> world \<Rightarrow> (error + nat) \<times> world" where
  "batch_loop out_dir [] ok w = (Inr ok, w)"
| "batch_loop out_dir ((path, sz) # ts) ok w =
     (case request_get path out_dir w of
        (Inl e, w') \<Rightarrow> (Inl e, w')
      | (Inr True, w') \<Rightarrow> batch_loop out_dir ts (ok + 1) w'
      | (Inr False, w') \<Rightarrow> batch_loop out_dir ts ok (print (Fail path) w'))"

definition main :: "args \<Rightarrow> env \<Rightarrow> world \<Rightarrow> error option \<times> world" where
  "main a e w0 =
     (let port = (case arg_port a of
                    None \<Rightarrow> detected_port e
                  | Some p \<Rightarrow> if p \<noteq> [] then Some p else detected_port e)
      in
      if port = None \<or> port = Some [] then (None, print NoPort w0)
      else
        let w1 = print (InfoOpen (the port)) w0 in
        if \<not> open_ok e then (None, print ErrOpen w1)
        else
          let w2 = open_serial w1 in
          (case request_list w2 of
             (files, w3) \<Rightarrow>
               if files = [] then (None, print InfoNoFiles w3)
               else
                 let w4 = print (InfoListing files) w3 in
                 (case (if arg_all a then Some files else select_targets files (stdin_line e)) of
                    None \<Rightarrow> (None, print WarnInput w4)
                  | Some targets \<Rightarrow>
                      if targets = [] then (None, print InfoNoTargets w4)
                      else
                        (case batch_loop (arg_out a) targets 0 w4 of
                           (Inl err, w5) \<Rightarrow> (Some err, w5)
                         | (Inr ok, w5) \<Rightarrow>
                             (None, ser_close (print (Summary ok (length targets)) w5))))))"

section \<open>Reading from a device that has sent its answer\<close>

text \<open>\<open>feed bs es\<close>: the bytes \<open>bs\<close> are ready, then the events \<open>es\<close> follow.\<close>

definition feed :: "string \<Rightarrow> event list \<Rightarrow> event list" where
  "feed bs es = (if bs = [] then es else Data bs # es)"

lemma ser_read_Data:
  "wire w = Data bs # es \<Longrightarrow> bs \<noteq> [] \<Longrightarrow>
   ser_read n w = (take n bs, w\<lparr>wire := feed (drop n bs) es\<rparr>)"
  by (simp add: ser_read_def feed_def)

lemma ser_read_silent:
  "wire w = [] \<Longrightarrow> ser_read n w = ([], w\<lparr>clock := clock w + 2\<rparr>)"
  by (simp add: ser_read_def)




section \<open>Example worlds\<close>

definition world0 :: "event list \<Rightarrow> world" where
  "world0 es = \<lparr>wire = es, clock = 0, sent = [], port_open = False, fs = Map.empty, out = [],
                nt = False\<rparr>"

definition args_all :: args where
  "args_all = \<lparr>arg_port = Some ''COM5'', arg_baud = 115200, arg_out = ''out'', arg_all = True\<rparr>"

definition env_ok :: env where
  "env_ok = \<lparr>detected_port = None, open_ok = True, stdin_line = None\<rparr>"

section \<open>Closing the port\<close>

text \<open>
  C7. On every exit of \<open>main\<close> after the port was opened, the port is closed. The source
  calls \<open>ser.close()\<close> only after the summary; the three early \<open>return\<close>s (empty listing,
  failed selection input, no targets) leave \<open>main\<close> with the port open. Here the device
  is silent, the listing is empty, and \<open>main\<close> returns with \<open>port_open\<close> still true.
\<close>

theorem main_empty_listing_port_open:
  "fst (main args_all env_ok (world0 [])) = None \<and>
   out (snd (main args_all env_ok (world0 []))) = [InfoOpen ''COM5'', InfoNoFiles] \<and>
   port_open (snd (main args_all env_ok (world0 []))) = True"
  by code_simp

section \<open>Decimal numerals and splitting\<close>

text \<open>\<open>dec n\<close> is the decimal numeral of \<open>n\<close>, the size field a device writes.\<close>

fun dec :: "nat \<Rightarrow> string" where
  "dec n = (if n < 10 then [char_of (48 + n)] else dec (n div 10) @ [char_of (48 + n mod 10)])"

declare dec.simps [simp del]

lemma digit_char: "d < 10 \<Longrightarrow> is_digit (char_of (48 + d)) \<and> digit_val (char_of (48 + d)) = d"
  by (simp add: is_digit_def digit_val_def)

lemma dec_digits: "c \<in> set (dec n) \<Longrightarrow> is_digit c"
proof (induction n rule: dec.induct)
  case (1 n)
  then show ?case
    by (subst (asm) (2) dec.simps) (auto simp: digit_char split: if_splits)
qed

lemma dec_nonempty: "dec n \<noteq> []"
  by (subst dec.simps) simp

lemma filter_digits: "\<forall>c \<in> set xs. is_digit c \<Longrightarrow> filter is_digit xs = xs"
  by (induction xs) simp_all

lemma py_digits_snoc:
  "\<forall>c \<in> set xs. is_digit c \<Longrightarrow> is_digit d \<Longrightarrow>
   py_digits acc (xs @ [d]) = map_option (\<lambda>v. v * 10 + digit_val d) (py_digits acc xs)"
  by (induction xs arbitrary: acc) auto

lemma py_nat_snoc:
  assumes "xs \<noteq> []" and "\<forall>c \<in> set xs. is_digit c" and "is_digit d"
    and "length xs < int_max_str_digits"
  shows "py_nat (xs @ [d]) = map_option (\<lambda>v. v * 10 + digit_val d) (py_nat xs)"
proof -
  from assms(2,3) have "\<forall>c \<in> set (xs @ [d]). is_digit c" by simp
  from filter_digits [OF this] filter_digits [OF assms(2)] assms(4)
  have l: "\<not> int_max_str_digits < length (filter is_digit (xs @ [d]))"
    "\<not> int_max_str_digits < length (filter is_digit xs)"
    by simp_all
  from assms(1) obtain c cs where x: "xs = c # cs" by (cases xs) auto
  with assms(2) have "is_digit c" "\<forall>c \<in> set cs. is_digit c" by simp_all
  with assms(3) have "py_digits (digit_val c) (cs @ [d]) =
      map_option (\<lambda>v. v * 10 + digit_val d) (py_digits (digit_val c) cs)"
    by (intro py_digits_snoc)
  with l \<open>is_digit c\<close> show ?thesis
    unfolding py_nat_def x by (simp del: filter.simps filter_append)
qed

lemma dec_length: "\<not> n < 10 \<Longrightarrow> length (dec n) = Suc (length (dec (n div 10)))"
  by (subst dec.simps) simp

lemma py_nat_dec: "length (dec n) \<le> int_max_str_digits \<Longrightarrow> py_nat (dec n) = Some n"
proof (induction n rule: dec.induct)
  case (1 n)
  show ?case
  proof (cases "n < 10")
    case True
    then show ?thesis
      by (subst dec.simps) (simp add: py_nat_def digit_char int_max_str_digits_def)
  next
    case False
    from dec_length [OF False] "1.prems"
    have lt: "length (dec (n div 10)) < int_max_str_digits" by simp
    have "py_nat (dec (n div 10) @ [char_of (48 + n mod 10)]) =
          map_option (\<lambda>v. v * 10 + digit_val (char_of (48 + n mod 10))) (py_nat (dec (n div 10)))"
      using lt by (intro py_nat_snoc) (auto simp: dec_nonempty dec_digits digit_char)
    with False "1.IH" lt show ?thesis
      by (subst dec.simps) (simp add: digit_char)
  qed
qed

lemma digit_not_space: "is_digit c \<Longrightarrow> \<not> is_space c \<and> \<not> is_c_space c"
  by (auto simp: is_digit_def is_space_def is_c_space_def Let_def)

lemma strip_id:
  assumes "s \<noteq> []" and "\<not> is_space (hd s)" and "\<not> is_space (last s)"
  shows "strip s = s"
proof -
  from assms have a: "dropWhile is_space s = s" by (cases s) auto
  from assms have "dropWhile is_space (rev s) = rev s"
    by (cases s rule: rev_cases) auto
  with a show ?thesis by (simp add: strip_def)
qed

lemma c_strip_id:
  assumes "s \<noteq> []" and "\<not> is_c_space (hd s)" and "\<not> is_c_space (last s)"
  shows "c_strip s = s"
proof -
  from assms have a: "dropWhile is_c_space s = s" by (cases s) auto
  from assms have "dropWhile is_c_space (rev s) = rev s"
    by (cases s rule: rev_cases) auto
  with a show ?thesis by (simp add: c_strip_def)
qed

lemma strip_Nil [simp]: "strip [] = []"
  by (simp add: strip_def)

lemma py_int_dec: "length (dec n) \<le> int_max_str_digits \<Longrightarrow> py_int (dec n) = Some (int n)"
proof -
  assume len: "length (dec n) \<le> int_max_str_digits"
  have ne: "dec n \<noteq> []" by (rule dec_nonempty)
  have h: "is_digit (hd (dec n))"
    using ne by (intro dec_digits [of _ n]) simp
  have l: "is_digit (last (dec n))"
    using ne by (intro dec_digits [of _ n]) simp
  from h l have s: "c_strip (dec n) = dec n"
    using ne by (intro c_strip_id) (auto dest: digit_not_space)
  from ne obtain c cs where d: "dec n = c # cs" by (cases "dec n") auto
  with h have "c \<noteq> CHR ''-''" "c \<noteq> CHR ''+''" by (auto simp: is_digit_def)
  with s d py_nat_dec [OF len] show ?thesis by (simp add: py_int_def)
qed

lemma takeWhile_neq_append:
  "sep \<notin> set b \<Longrightarrow> takeWhile (\<lambda>c. c \<noteq> sep) (b @ sep # a) = b"
  by (induction b) auto

lemma dropWhile_neq_append:
  "sep \<notin> set b \<Longrightarrow> dropWhile (\<lambda>c. c \<noteq> sep) (b @ sep # a) = sep # a"
  by (induction b) auto

lemma rsplit1_last:
  "sep \<notin> set b \<Longrightarrow> rsplit1 sep (a @ sep # b) = Some (a, b)"
  by (simp add: rsplit1_def takeWhile_neq_append dropWhile_neq_append)

lemma endswith_CRLF_split:
  "endswith s CRLF \<Longrightarrow> s = take (length s - 2) s @ CRLF"
proof -
  assume "endswith s CRLF"
  then have "drop (length s - 2) s = CRLF" by (simp add: endswith_def CRLF_def numeral_2_eq_2)
  with append_take_drop_id [of "length s - 2" s] show ?thesis by simp
qed

section \<open>A silent device\<close>

text \<open>A wire is silent when nothing but timeouts is left on it; \<open>waited w v\<close> says
  that from \<open>w\<close> to \<open>v\<close> only time has passed.\<close>

definition silent :: "event list \<Rightarrow> bool" where
  "silent es = list_all (\<lambda>e. e = Idle) es"

definition waited :: "world \<Rightarrow> world \<Rightarrow> bool" where
  "waited w v \<longleftrightarrow>
     silent (wire v) \<and> fs v = fs w \<and> out v = out w \<and> sent v = sent w \<and>
     port_open v = port_open w \<and> nt v = nt w \<and> clock w \<le> clock v"

lemma waited_refl: "silent (wire w) \<Longrightarrow> waited w w"
  by (simp add: waited_def)

lemma waited_trans: "waited w v \<Longrightarrow> waited v u \<Longrightarrow> waited w u"
  by (simp add: waited_def)

lemma ser_read_waited:
  "silent (wire w) \<Longrightarrow> \<exists>v. ser_read n w = ([], v) \<and> waited w v"
  by (cases "wire w") (auto simp: ser_read_def silent_def waited_def)

lemma read_line_loop_silent:
  "silent (wire w) \<Longrightarrow> \<exists>v. read_line_loop d buf w = (None, v) \<and> waited w v \<and> d \<le> clock v"
proof (induction d buf w rule: read_line_loop.induct)
  case (1 d buf w)
  show ?case
  proof (cases "clock w < d")
    case False
    with "1.prems" show ?thesis by (simp add: waited_refl read_line_loop.simps)
  next
    case True
    from ser_read_waited [OF "1.prems", of 1]
    obtain v where r: "ser_read 1 w = ([], v)" and wv: "waited w v" by blast
    from wv have "silent (wire v)" by (simp add: waited_def)
    from "1.IH"(1) [OF True r [symmetric] refl this]
    obtain u where u: "read_line_loop d buf v = (None, u)" "waited v u" "d \<le> clock u" by blast
    from True r u(1) have "read_line_loop d buf w = (None, u)"
      by (subst read_line_loop.simps) simp
    with waited_trans [OF wv u(2)] u(3) show ?thesis by blast
  qed
qed

lemma read_line_silent:
  "silent (wire w) \<Longrightarrow> \<exists>v. read_line t w = (None, v) \<and> waited w v \<and> clock w + t \<le> clock v"
  unfolding read_line_def by (rule read_line_loop_silent)

section \<open>What the loops leave untouched\<close>

text \<open>\<open>wire_bytes w\<close>: all bytes the device still delivers, whatever the timing.\<close>

fun event_bytes :: "event \<Rightarrow> string" where
  "event_bytes (Data bs) = bs"
| "event_bytes Idle = []"

definition wire_bytes :: "world \<Rightarrow> string" where
  "wire_bytes w = concat (map event_bytes (wire w))"

lemma ser_read_bytes:
  "ser_read n w = (b, v) \<Longrightarrow> wire_bytes w = b @ wire_bytes v \<and> length b \<le> n"
  by (auto simp: ser_read_def wire_bytes_def split: list.splits event.splits if_splits)

lemma read_line_loop_frame:
  "read_line_loop d buf w = (x, v) \<Longrightarrow>
   fs v = fs w \<and> out v = out w \<and> sent v = sent w \<and> port_open v = port_open w \<and> nt v = nt w"
proof (induction d buf w rule: read_line_loop.induct)
  case (1 d buf w)
  show ?case
  proof (cases "clock w < d")
    case False
    with "1.prems" show ?thesis by (simp add: read_line_loop.simps)
  next
    case True
    obtain b u where r: "ser_read 1 w = (b, u)" by (cases "ser_read 1 w")
    note f = ser_read_frame [OF r]
    show ?thesis
    proof (cases "b = []")
      case e: True
      with True r "1.prems" have "read_line_loop d buf u = (x, v)"
        by (subst (asm) read_line_loop.simps) simp
      from "1.IH"(1) [OF True r [symmetric] e this] f show ?thesis by simp
    next
      case ne: False
      show ?thesis
      proof (cases "endswith (buf @ b) CRLF")
        case True
        with ne \<open>clock w < d\<close> r "1.prems" have "v = u"
          by (subst (asm) read_line_loop.simps) simp
        with f show ?thesis by simp
      next
        case False
        with ne True r "1.prems" have "read_line_loop d (buf @ b) u = (x, v)"
          by (subst (asm) read_line_loop.simps) simp
        from "1.IH"(2) [OF True r [symmetric] ne False this] f show ?thesis by simp
      qed
    qed
  qed
qed

lemma read_line_frame:
  "read_line t w = (x, v) \<Longrightarrow>
   fs v = fs w \<and> out v = out w \<and> sent v = sent w \<and> port_open v = port_open w \<and> nt v = nt w"
  unfolding read_line_def by (rule read_line_loop_frame)

lemma recv_loop_inv:
  "recv_loop p d r w = (r', w') \<Longrightarrow> fs w p = Some (File old) \<Longrightarrow>
   \<exists>bs. fs w' = (fs w)(p \<mapsto> File (old @ bs)) \<and> r' = r - int (length bs) \<and>
        wire_bytes w = bs @ wire_bytes w' \<and> int (length bs) \<le> max 0 r \<and>
        out w' = out w \<and> sent w' = sent w \<and> port_open w' = port_open w"
proof (induction p d r w arbitrary: old rule: recv_loop.induct)
  case (1 p d r w)
  show ?case
  proof (cases "0 < r \<and> clock w < d")
    case False
    with "1.prems" have "r' = r" "w' = w" by (simp_all add: recv_loop.simps)
    with "1.prems"(2) show ?thesis by (intro exI [of _ "[]"]) auto
  next
    case True
    obtain b u where r: "ser_read (nat (min r 4096)) w = (b, u)"
      by (cases "ser_read (nat (min r 4096)) w")
    note f = ser_read_frame [OF r]
    from ser_read_bytes [OF r] have wb: "wire_bytes w = b @ wire_bytes u" and lb: "int (length b) \<le> r"
      using True by auto
    show ?thesis
    proof (cases "b = []")
      case e: True
      with True r "1.prems"(1) have "recv_loop p d r u = (r', w')"
        by (subst (asm) recv_loop.simps) simp
      from "1.IH"(1) [OF True r [symmetric] e this, of old] "1.prems"(2) f wb e
      show ?thesis by auto
    next
      case ne: False
      let ?u = "file_write p b u"
      from ne True r "1.prems"(1) have rc: "recv_loop p d (r - int (length b)) ?u = (r', w')"
        by (subst (asm) recv_loop.simps) simp
      have fu: "fs ?u = (fs w)(p \<mapsto> File (old @ b))"
        using f "1.prems"(2) by (simp add: file_write_def file_bytes_def)
      then have fp: "fs ?u p = Some (File (old @ b))" by simp
      obtain bs where bs:
        "fs w' = (fs ?u)(p \<mapsto> File ((old @ b) @ bs))" "r' = r - int (length b) - int (length bs)"
        "wire_bytes ?u = bs @ wire_bytes w'" "int (length bs) \<le> max 0 (r - int (length b))"
        "out w' = out ?u" "sent w' = sent ?u" "port_open w' = port_open ?u"
        using "1.IH"(2) [OF True r [symmetric] ne rc fp] by blast
      have "wire_bytes ?u = wire_bytes u" by (simp add: wire_bytes_def)
      with bs fu f wb lb show ?thesis
        by (intro exI [of _ "b @ bs"]) auto
    qed
  qed
qed

section \<open>The receive loop on ready bytes and on a silent wire\<close>

lemma feed_Nil [simp]: "feed [] es = es"
  by (simp add: feed_def)

lemma recv_loop_stop:
  "\<not> (0 < r \<and> clock w < d) \<Longrightarrow> recv_loop p d r w = (r, w)"
  by (subst recv_loop.simps) auto

lemma recv_loop_consume:
  assumes "wire w = feed (bs @ rest) es" and "int (length bs) \<le> r"
    and "rest = [] \<or> int (length bs) = r" and "clock w < d" and "fs w p = Some (File old)"
  shows "recv_loop p d r w =
         recv_loop p d (r - int (length bs))
           (w\<lparr>wire := feed rest es, fs := (fs w)(p \<mapsto> File (old @ bs))\<rparr>)"
  using assms
proof (induction "length bs" arbitrary: bs r w old rule: less_induct)
  case less
  show ?case
  proof (cases "bs = []")
    case True
    have "w\<lparr>wire := feed rest es, fs := (fs w)(p \<mapsto> File old)\<rparr> = w"
      using less.prems(1,5) True by (simp add: fun_upd_idem)
    with True show ?thesis by simp
  next
    case False
    let ?n = "nat (min r 4096)"
    from False less.prems(2) have rpos: "0 < r" by (cases bs) auto
    then have npos: "0 < ?n" by simp
    from less.prems(2,3) have nle: "rest = [] \<or> ?n \<le> length bs" by auto
    from False less.prems(1) have wd: "wire w = Data (bs @ rest) # es"
      by (simp add: feed_def)
    from nle have tk: "take ?n (bs @ rest) = take ?n bs" and dr: "drop ?n (bs @ rest) = drop ?n bs @ rest"
      by auto
    from False have "bs @ rest \<noteq> []" by simp
    from ser_read_Data [OF wd this, of ?n]
    have r: "ser_read ?n w = (take ?n bs, w\<lparr>wire := feed (drop ?n bs @ rest) es\<rparr>)"
      unfolding tk dr .
    let ?u = "file_write p (take ?n bs) (w\<lparr>wire := feed (drop ?n bs @ rest) es\<rparr>)"
    from False npos have tne: "take ?n bs \<noteq> []" by (cases bs) auto
    have step: "recv_loop p d r w = recv_loop p d (r - int (length (take ?n bs))) ?u"
      using rpos less.prems(4) r tne by (subst recv_loop.simps) simp
    have fu: "fs ?u p = Some (File (old @ take ?n bs))"
      using less.prems(5) by (simp add: file_write_def file_bytes_def)
    have lt: "length (drop ?n bs) < length bs" using False npos by (cases bs) auto
    have l2: "int (length (drop ?n bs)) \<le> r - int (length (take ?n bs))"
      using less.prems(2) by auto
    have l3: "rest = [] \<or> int (length (drop ?n bs)) = r - int (length (take ?n bs))"
      using less.prems(3) by auto
    have "recv_loop p d (r - int (length (take ?n bs))) ?u =
          recv_loop p d (r - int (length (take ?n bs)) - int (length (drop ?n bs)))
            (?u\<lparr>wire := feed rest es, fs := (fs ?u)(p \<mapsto> File ((old @ take ?n bs) @ drop ?n bs))\<rparr>)"
      using less.prems(4) by (intro less.hyps [OF lt _ l2 l3 _ fu]) simp_all
    also have "r - int (length (take ?n bs)) - int (length (drop ?n bs)) = r - int (length bs)"
      by auto
    also have "?u\<lparr>wire := feed rest es, fs := (fs ?u)(p \<mapsto> File ((old @ take ?n bs) @ drop ?n bs))\<rparr>
             = w\<lparr>wire := feed rest es, fs := (fs w)(p \<mapsto> File (old @ bs))\<rparr>"
      by (simp add: file_write_def)
    finally show ?thesis using step by simp
  qed
qed

lemma recv_loop_silent:
  "silent (wire w) \<Longrightarrow> \<exists>v. recv_loop p d r w = (r, v) \<and> waited w v"
proof (induction p d r w rule: recv_loop.induct)
  case (1 p d r w)
  show ?case
  proof (cases "0 < r \<and> clock w < d")
    case False
    with "1.prems" show ?thesis by (simp add: recv_loop_stop waited_refl)
  next
    case True
    from ser_read_waited [OF "1.prems", of "nat (min r 4096)"]
    obtain u where r: "ser_read (nat (min r 4096)) w = ([], u)" and wu: "waited w u" by blast
    from wu have "silent (wire u)" by (simp add: waited_def)
    from "1.IH"(1) [OF True r [symmetric] refl this]
    obtain v where v: "recv_loop p d r u = (r, v)" "waited u v" by blast
    from True r v(1) have "recv_loop p d r w = (r, v)"
      by (subst recv_loop.simps) simp
    with waited_trans [OF wu v(2)] show ?thesis by blast
  qed
qed

section \<open>Bytes that arrive in time\<close>

text \<open>
  \<open>pull T n es\<close>: what a reader gets from the wire \<open>es\<close> when it wants \<open>n\<close> bytes and
  gives up once \<open>T\<close> ticks have passed: the bytes it got and the wire it leaves. Bytes that
  are ready cost no time; every timeout costs two ticks. Fewer than \<open>n\<close> bytes come back
  exactly when the time was up first.
\<close>

fun pull :: "nat \<Rightarrow> nat \<Rightarrow> event list \<Rightarrow> string \<times> event list" where
  "pull T n [] = ([], [])"
| "pull T n (e # es) =
     (if T = 0 \<or> n = 0 then ([], e # es)
      else if event_bytes e = [] then pull (T - 2) n es
      else if n \<le> length (event_bytes e)
        then (take n (event_bytes e), feed (drop n (event_bytes e)) es)
      else (case pull T (n - length (event_bytes e)) es of
              (b, r) \<Rightarrow> (event_bytes e @ b, r)))"

lemma pull_0 [simp]: "pull T 0 es = ([], es)"
  by (cases es) simp_all

lemma pull_T0 [simp]: "pull 0 n es = ([], es)"
  by (cases es) simp_all

lemma pull_byte:
  assumes "0 < T" and "0 < n"
  shows "pull T n (Data (c # cs) # es) =
         (case pull T (n - 1) (feed cs es) of (b, r) \<Rightarrow> (c # b, r))"
proof (cases "n \<le> length (c # cs)")
  case True
  show ?thesis
  proof (cases "n = 1")
    case True
    with assms show ?thesis by simp
  next
    case False
    with assms True have "cs \<noteq> []" "n - 1 \<le> length cs" "0 < n - 1" by auto
    with assms True show ?thesis
      by (cases n) (simp_all add: feed_def)
  qed
next
  case False
  with assms show ?thesis
    by (cases cs) (auto simp: feed_def split: prod.splits)
qed

lemma recv_loop_exhausted:
  "wire w = [] \<Longrightarrow> \<exists>c\<ge>clock w. recv_loop p d r w = (r, w\<lparr>clock := c\<rparr>)"
proof (induction p d r w rule: recv_loop.induct)
  case (1 p d r w)
  show ?case
  proof (cases "0 < r \<and> clock w < d")
    case False
    then have "recv_loop p d r w = (r, w\<lparr>clock := clock w\<rparr>)" by (simp add: recv_loop_stop)
    then show ?thesis by blast
  next
    case True
    let ?u = "w\<lparr>clock := clock w + 2\<rparr>"
    from ser_read_silent [OF "1.prems"] have r: "ser_read (nat (min r 4096)) w = ([], ?u)" .
    from "1.prems" have "wire ?u = []" by simp
    from "1.IH"(1) [OF True r [symmetric] refl this]
    obtain c where c: "clock ?u \<le> c" "recv_loop p d r ?u = (r, ?u\<lparr>clock := c\<rparr>)" by blast
    from True r have "recv_loop p d r w = recv_loop p d r ?u"
      by (subst recv_loop.simps) simp
    with c have "recv_loop p d r w = (r, w\<lparr>clock := c\<rparr>)" "clock w \<le> c" by simp_all
    then show ?thesis by blast
  qed
qed

lemma ser_read_no_bytes:
  assumes "wire w = e # es" and "event_bytes e = []"
  shows "ser_read k w = ([], w\<lparr>wire := es, clock := clock w + 2\<rparr>)"
  using assms by (cases e) (simp_all add: ser_read_def)

lemma recv_loop_pull:
  assumes "fs w p = Some (File old)" and "pull (d - clock w) (nat r) (wire w) = (b, es')"
  shows "\<exists>c\<ge>clock w. recv_loop p d r w =
           (r - int (length b), w\<lparr>wire := es', clock := c, fs := (fs w)(p \<mapsto> File (old @ b))\<rparr>)"
  using assms
proof (induction es \<equiv> "wire w" arbitrary: w r old b)
  case Nil
  then have e: "b = []" "es' = []" by simp_all
  from Nil(1) have "wire w = []" by simp
  from recv_loop_exhausted [OF this, of p d r]
  obtain c where c: "clock w \<le> c" "recv_loop p d r w = (r, w\<lparr>clock := c\<rparr>)" by blast
  have eq: "w\<lparr>wire := es', clock := c, fs := (fs w)(p \<mapsto> File (old @ b))\<rparr> = w\<lparr>clock := c\<rparr>"
    using Nil(1,2) e by (simp add: fun_upd_idem)
  show ?case
  proof (intro exI [of _ c] conjI)
    show "clock w \<le> c" by fact
    show "recv_loop p d r w =
           (r - int (length b), w\<lparr>wire := es', clock := c, fs := (fs w)(p \<mapsto> File (old @ b))\<rparr>)"
      unfolding eq c(2) using e by simp
  qed
next
  case (Cons e es)
  from Cons(2) have ww: "wire w = e # es" by simp
  show ?case
  proof (cases "0 < r \<and> clock w < d")
    case False
    then have "d - clock w = 0 \<or> nat r = 0" by auto
    with Cons.prems(2) ww have e: "b = []" "es' = wire w" by auto
    have eq: "w\<lparr>wire := es', clock := clock w, fs := (fs w)(p \<mapsto> File (old @ b))\<rparr> = w"
      using Cons.prems(1) e by (simp add: fun_upd_idem)
    show ?thesis
    proof (intro exI [of _ "clock w"] conjI)
      show "recv_loop p d r w =
           (r - int (length b), w\<lparr>wire := es', clock := clock w, fs := (fs w)(p \<mapsto> File (old @ b))\<rparr>)"
        unfolding eq recv_loop_stop [OF False] using e by simp
    qed simp
  next
    case True
    then have T: "d - clock w \<noteq> 0" "nat r \<noteq> 0" by auto
    show ?thesis
    proof (cases "event_bytes e = []")
      case nb: True
      let ?u = "w\<lparr>wire := es, clock := clock w + 2\<rparr>"
      from ser_read_no_bytes [OF ww nb] have r: "ser_read (nat (min r 4096)) w = ([], ?u)" .
      from True r have step: "recv_loop p d r w = recv_loop p d r ?u"
        by (subst recv_loop.simps) simp
      from Cons.prems(2) ww T nb have "pull (d - clock w - 2) (nat r) es = (b, es')" by simp
      then have pu: "pull (d - clock ?u) (nat r) (wire ?u) = (b, es')" by simp
      have "es = wire ?u" by simp
      from Cons.hyps(1) [OF this _ pu, of old] Cons.prems(1)
      obtain c where c: "clock ?u \<le> c"
        "recv_loop p d r ?u =
           (r - int (length b), ?u\<lparr>wire := es', clock := c, fs := (fs ?u)(p \<mapsto> File (old @ b))\<rparr>)"
        by auto
      from c(1) have cw: "clock w \<le> c" by simp
      have eq: "?u\<lparr>wire := es', clock := c, fs := (fs ?u)(p \<mapsto> File (old @ b))\<rparr>
                = w\<lparr>wire := es', clock := c, fs := (fs w)(p \<mapsto> File (old @ b))\<rparr>"
        by simp
      show ?thesis
      proof (intro exI [of _ c] conjI)
        show "recv_loop p d r w =
           (r - int (length b), w\<lparr>wire := es', clock := c, fs := (fs w)(p \<mapsto> File (old @ b))\<rparr>)"
          unfolding step c(2) eq ..
      qed (fact cw)
    next
      case False
      then obtain bs where e: "e = Data bs" "bs \<noteq> []" by (cases e) simp_all
      show ?thesis
      proof (cases "nat r \<le> length bs")
        case le: True
        with Cons.prems(2) ww T e have be: "b = take (nat r) bs" "es' = feed (drop (nat r) bs) es"
          by simp_all
        have w1: "wire w = feed (take (nat r) bs @ drop (nat r) bs) es"
          using ww e by (simp add: feed_def)
        have l1: "int (length (take (nat r) bs)) = r" using le True by simp
        from recv_loop_consume [OF w1 _ _ _ Cons.prems(1), of r d] l1 True
        have "recv_loop p d r w = recv_loop p d 0
                (w\<lparr>wire := feed (drop (nat r) bs) es, fs := (fs w)(p \<mapsto> File (old @ take (nat r) bs))\<rparr>)"
          by simp
        then have "recv_loop p d r w =
              (0, w\<lparr>wire := feed (drop (nat r) bs) es, fs := (fs w)(p \<mapsto> File (old @ take (nat r) bs))\<rparr>)"
          by (simp add: recv_loop_stop)
        moreover have "w\<lparr>wire := es', clock := clock w, fs := (fs w)(p \<mapsto> File (old @ b))\<rparr>
             = w\<lparr>wire := feed (drop (nat r) bs) es, fs := (fs w)(p \<mapsto> File (old @ take (nat r) bs))\<rparr>"
          using be by simp
        moreover have "r - int (length b) = 0" using be l1 by simp
        ultimately have "recv_loop p d r w =
           (r - int (length b), w\<lparr>wire := es', clock := clock w, fs := (fs w)(p \<mapsto> File (old @ b))\<rparr>)"
          by simp
        then show ?thesis by (intro exI [of _ "clock w"] conjI) simp_all
      next
        case gt: False
        let ?u = "w\<lparr>wire := es, fs := (fs w)(p \<mapsto> File (old @ bs))\<rparr>"
        from Cons.prems(2) ww T e gt obtain b' where
          b': "pull (d - clock w) (nat r - length bs) es = (b', es')" "b = bs @ b'"
          by (auto split: prod.splits)
        have w1: "wire w = feed (bs @ []) es" using ww e by (simp add: feed_def)
        from gt have l1: "int (length bs) \<le> r" by simp
        from recv_loop_consume [OF w1 l1 _ _ Cons.prems(1), of d] True
        have step: "recv_loop p d r w = recv_loop p d (r - int (length bs)) ?u" by simp
        have n: "nat (r - int (length bs)) = nat r - length bs" by simp
        from b'(1) have pu: "pull (d - clock ?u) (nat (r - int (length bs))) (wire ?u) = (b', es')"
          by (simp add: n)
        have fu: "fs ?u p = Some (File (old @ bs))" by simp
        have "es = wire ?u" by simp
        from Cons.hyps(1) [OF this fu pu]
        obtain c where c: "clock ?u \<le> c"
          "recv_loop p d (r - int (length bs)) ?u =
             (r - int (length bs) - int (length b'),
              ?u\<lparr>wire := es', clock := c, fs := (fs ?u)(p \<mapsto> File ((old @ bs) @ b'))\<rparr>)"
          by auto
        from c(1) have cw: "clock w \<le> c" by simp
        have eq: "?u\<lparr>wire := es', clock := c, fs := (fs ?u)(p \<mapsto> File ((old @ bs) @ b'))\<rparr>
                = w\<lparr>wire := es', clock := c, fs := (fs w)(p \<mapsto> File (old @ b))\<rparr>"
          using b'(2) by simp
        have eq2: "r - int (length bs) - int (length b') = r - int (length b)"
          using b'(2) by simp
        show ?thesis
        proof (intro exI [of _ c] conjI)
          show "recv_loop p d r w =
             (r - int (length b), w\<lparr>wire := es', clock := c, fs := (fs w)(p \<mapsto> File (old @ b))\<rparr>)"
            unfolding step c(2) eq eq2 ..
        qed (fact cw)
      qed
    qed
  qed
qed

lemma line_prefix_no_end:
  assumes "buf @ x = l @ CRLF" and "x \<noteq> []" and "CR \<notin> set l"
  shows "\<not> endswith buf CRLF"
proof
  assume "endswith buf CRLF"
  from endswith_CRLF_split [OF this] obtain y where y: "buf = y @ CRLF" by blast
  with assms(1) have e: "y @ CR # LF # x = l @ [CR, LF]" by (simp add: CRLF_def)
  then have "length y + 2 + length x = length l + 2" by (metis length_append length_Cons add_2_eq_Suc' list.size(3) add.commute add_Suc_right add.right_neutral)
  with assms(2) have lt: "length y < length l" by (cases x) auto
  from e have "(y @ CR # LF # x) ! length y = (l @ [CR, LF]) ! length y" by simp
  with lt have "l ! length y = CR" by (simp add: nth_append)
  with lt assms(3) show False by (metis nth_mem)
qed

lemma read_line_loop_pull:
  assumes "CR \<notin> set l" and "buf @ x = l @ CRLF" and "x \<noteq> []"
    and "pull (d - clock w) (length x) (wire w) = (x, es')"
  shows "\<exists>c\<ge>clock w. read_line_loop d buf w = (Some l, w\<lparr>wire := es', clock := c\<rparr>)"
  using assms
proof (induction d buf w arbitrary: x rule: read_line_loop.induct)
  case (1 d buf w)
  from "1.prems"(3,4) have T: "d - clock w \<noteq> 0" by (cases "d - clock w = 0") auto
  then have lt: "clock w < d" by simp
  from "1.prems"(3,4) obtain e es where ww: "wire w = e # es" by (cases "wire w") auto
  from "1.prems"(3) have n: "length x \<noteq> 0" by simp
  show ?case
  proof (cases "event_bytes e = []")
    case nb: True
    let ?u = "w\<lparr>wire := es, clock := clock w + 2\<rparr>"
    from ser_read_no_bytes [OF ww nb] have r: "ser_read 1 w = ([], ?u)" .
    from lt r have step: "read_line_loop d buf w = read_line_loop d buf ?u"
      by (subst read_line_loop.simps) simp
    from "1.prems"(4) ww T n nb have "pull (d - clock w - 2) (length x) es = (x, es')" by simp
    then have pu: "pull (d - clock ?u) (length x) (wire ?u) = (x, es')" by simp
    from "1.IH"(1) [OF lt r [symmetric] refl "1.prems"(1,2,3) pu]
    obtain c where c: "clock ?u \<le> c"
      "read_line_loop d buf ?u = (Some l, ?u\<lparr>wire := es', clock := c\<rparr>)" by blast
    from c(1) have cw: "clock w \<le> c" by simp
    have eq: "?u\<lparr>wire := es', clock := c\<rparr> = w\<lparr>wire := es', clock := c\<rparr>" by simp
    show ?thesis
    proof (intro exI [of _ c] conjI)
      show "read_line_loop d buf w = (Some l, w\<lparr>wire := es', clock := c\<rparr>)"
        unfolding step c(2) eq ..
    qed (fact cw)
  next
    case False
    then obtain c0 cs where e: "e = Data (c0 # cs)" by (cases e; cases "event_bytes e") auto
    let ?u = "w\<lparr>wire := feed cs es\<rparr>"
    from ser_read_Data [of w "c0 # cs" es 1] ww e have r: "ser_read 1 w = ([c0], ?u)" by simp
    from pull_byte [of "d - clock w" "length x" c0 cs es] T n "1.prems"(4) ww e
    obtain x' where x': "x = c0 # x'" "pull (d - clock w) (length x - 1) (feed cs es) = (x', es')"
      by (auto split: prod.splits)
    then have px: "pull (d - clock ?u) (length x') (wire ?u) = (x', es')" by simp
    from "1.prems"(2) x'(1) have b2: "(buf @ [c0]) @ x' = l @ CRLF" by simp
    show ?thesis
    proof (cases "x' = []")
      case True
      with b2 have bl: "buf @ [c0] = l @ CRLF" by simp
      then have en: "endswith (buf @ [c0]) CRLF" by (simp add: endswith_def CRLF_def)
      from bl have tk: "take (length (buf @ [c0]) - 2) (buf @ [c0]) = l" by (simp add: CRLF_def)
      from px True have es': "es' = feed cs es" by simp
      from lt r en have "read_line_loop d buf w =
          (Some (take (length (buf @ [c0]) - 2) (buf @ [c0])), ?u)"
        by (subst read_line_loop.simps) simp
      then have "read_line_loop d buf w = (Some l, w\<lparr>wire := es', clock := clock w\<rparr>)"
        unfolding tk es' by simp
      then show ?thesis by (intro exI [of _ "clock w"] conjI) simp_all
    next
      case ne: False
      from line_prefix_no_end [OF b2 ne "1.prems"(1)] have nen: "\<not> endswith (buf @ [c0]) CRLF" .
      from lt r nen have step: "read_line_loop d buf w = read_line_loop d (buf @ [c0]) ?u"
        by (subst read_line_loop.simps) simp
      have nn: "[c0] \<noteq> []" by simp
      from "1.IH"(2) [OF lt r [symmetric] nn nen "1.prems"(1) b2 ne px]
      obtain c where c: "clock ?u \<le> c"
        "read_line_loop d (buf @ [c0]) ?u = (Some l, ?u\<lparr>wire := es', clock := c\<rparr>)" by blast
      from c(1) have cw: "clock w \<le> c" by simp
      have eq: "?u\<lparr>wire := es', clock := c\<rparr> = w\<lparr>wire := es', clock := c\<rparr>" by simp
      show ?thesis
      proof (intro exI [of _ c] conjI)
        show "read_line_loop d buf w = (Some l, w\<lparr>wire := es', clock := c\<rparr>)"
          unfolding step c(2) eq ..
      qed (fact cw)
    qed
  qed
qed

lemma read_line_pull:
  assumes "CR \<notin> set l" and "pull t (length l + 2) (wire w) = (l @ CRLF, es')"
  shows "\<exists>c\<ge>clock w. read_line t w = (Some l, w\<lparr>wire := es', clock := c\<rparr>)"
proof -
  have "length (l @ CRLF) = length l + 2" by (simp add: CRLF_def)
  with assms(2) have "pull (clock w + t - clock w) (length (l @ CRLF)) (wire w) = (l @ CRLF, es')"
    by simp
  from read_line_loop_pull [OF assms(1) _ _ this, of "[]"] show ?thesis
    unfolding read_line_def by (simp add: CRLF_def)
qed

text \<open>\<open>arrives T bs es es'\<close>: read from the wire \<open>es\<close>, the bytes \<open>bs\<close> are all there
  before \<open>T\<close> ticks have passed, and \<open>es'\<close> is the wire behind them.\<close>

definition arrives :: "nat \<Rightarrow> string \<Rightarrow> event list \<Rightarrow> event list \<Rightarrow> bool" where
  "arrives T bs es es' \<longleftrightarrow> pull T (length bs) es = (bs, es')"

lemma read_line_arrives:
  assumes "CR \<notin> set l" and "arrives t (l @ CRLF) (wire w) es'"
  shows "\<exists>c\<ge>clock w. read_line t w = (Some l, w\<lparr>wire := es', clock := c\<rparr>)"
proof -
  have "length (l @ CRLF) = length l + 2" by (simp add: CRLF_def)
  with assms(2) have "pull t (length l + 2) (wire w) = (l @ CRLF, es')"
    by (simp add: arrives_def)
  from read_line_pull [OF assms(1) this] show ?thesis .
qed

section \<open>The lines of a listing\<close>

text \<open>
  \<open>lines_arrive T ls es es'\<close>: read from the wire \<open>es\<close>, each of the lines \<open>ls\<close> in
  turn is there with its CR LF before \<open>T\<close> ticks have passed since the line before it was
  read, in whatever pieces and with whatever pauses; \<open>es'\<close> is the wire behind the last of
  them. \<open>request_list\<close> gives every line two seconds.

  A listing ends in one of two ways. Either nothing comes any more and the next read of a
  line times out (\<open>None\<close>), or a line comes that does not start with \<open>LIST:\<close>
  (\<open>Some l\<close>, with \<open>l\<close> in ASCII): an error line of the device, or any other line.
  An error line is printed.
\<close>

fun lines_arrive :: "nat \<Rightarrow> string list \<Rightarrow> event list \<Rightarrow> event list \<Rightarrow> bool" where
  "lines_arrive T [] es es' = (es = es')"
| "lines_arrive T (l # ls) es es' =
     (case pull T (length l + 2) es of (b, r) \<Rightarrow> b = l @ CRLF \<and> lines_arrive T ls r es')"

definition listing_ends :: "string option \<Rightarrow> event list \<Rightarrow> bool" where
  "listing_ends last_line es =
     (case last_line of
        None \<Rightarrow> silent es
      | Some l \<Rightarrow>
          CR \<notin> set l \<and> ascii l \<and> \<not> startswith l ''LIST:'' \<and>
          fst (pull 20 (length l + 2) es) = l @ CRLF)"

definition end_msgs :: "string option \<Rightarrow> msg list" where
  "end_msgs last_line =
     (case last_line of
        None \<Rightarrow> []
      | Some l \<Rightarrow> if startswith l ''ERR:'' then [Esp32Error l] else [])"

lemma list_loop_ends:
  assumes "listing_ends e (wire w)" and "start \<le> clock w"
  shows "\<exists>w'. list_loop start files w = (files, w') \<and> out w' = out w @ end_msgs e \<and>
              fs w' = fs w \<and> port_open w' = port_open w \<and> sent w' = sent w"
proof (cases e)
  case None
  with assms(1) have "silent (wire w)" by (simp add: listing_ends_def)
  from read_line_silent [OF this, of 20]
  obtain v where v: "read_line 20 w = (None, v)" "waited w v" "clock w + 20 \<le> clock v" by blast
  with assms(2) have "\<not> clock v - start < 10" by simp
  with v(1) have "list_loop start files w = (files, v)"
    by (subst list_loop.simps) simp
  with v(2) None show ?thesis by (simp add: waited_def end_msgs_def)
next
  case (Some l)
  with assms(1) have l: "CR \<notin> set l" "\<not> startswith l ''LIST:''"
    and p: "fst (pull 20 (length l + 2) (wire w)) = l @ CRLF"
    by (simp_all add: listing_ends_def)
  from p obtain es' where "pull 20 (length l + 2) (wire w) = (l @ CRLF, es')"
    by (cases "pull 20 (length l + 2) (wire w)") simp
  from read_line_pull [OF l(1) this]
  obtain c where r: "read_line 20 w = (Some l, w\<lparr>wire := es', clock := c\<rparr>)" by blast
  from r l(2) have "list_loop start files w =
      (if startswith l ''ERR:'' then (files, print (Esp32Error l) (w\<lparr>wire := es', clock := c\<rparr>))
       else (files, w\<lparr>wire := es', clock := c\<rparr>))"
    by (subst list_loop.simps) simp
  with Some show ?thesis by (simp add: end_msgs_def)
qed

lemma list_loop_arrive:
  assumes "\<forall>l \<in> set ls. startswith l ''LIST:'' \<and> CR \<notin> set l"
    and "lines_arrive 20 ls (wire w) es" and "listing_ends e es" and "start \<le> clock w"
  shows "\<exists>w'. list_loop start files w = (files @ List.map_filter parse_list_line ls, w') \<and>
              out w' = out w @ map WarnListLine (filter (\<lambda>l. parse_list_line l = None) ls)
                         @ end_msgs e \<and>
              fs w' = fs w \<and> port_open w' = port_open w \<and> sent w' = sent w"
  using assms
proof (induction ls arbitrary: files w)
  case Nil
  then have "listing_ends e (wire w)" by simp
  from list_loop_ends [OF this Nil.prems(4), of files]
  show ?case by (simp add: List.map_filter_simps)
next
  case (Cons l ls)
  from Cons.prems(1) have l: "startswith l ''LIST:''" "CR \<notin> set l" by simp_all
  from Cons.prems(2) obtain r where p: "pull 20 (length l + 2) (wire w) = (l @ CRLF, r)"
    and la: "lines_arrive 20 ls r es"
    by (cases "pull 20 (length l + 2) (wire w)") auto
  from read_line_pull [OF l(2) p]
  obtain c where c: "clock w \<le> c" and rl: "read_line 20 w = (Some l, w\<lparr>wire := r, clock := c\<rparr>)"
    by blast
  let ?v = "w\<lparr>wire := r, clock := c\<rparr>"
  have ih: "\<exists>w'. list_loop start fs0 v = (fs0 @ List.map_filter parse_list_line ls, w') \<and>
              out w' = out v @ map WarnListLine (filter (\<lambda>l. parse_list_line l = None) ls)
                         @ end_msgs e \<and>
              fs w' = fs v \<and> port_open w' = port_open v \<and> sent w' = sent v"
    if "wire v = r" "start \<le> clock v" for fs0 v
    using Cons.IH [of v fs0] Cons.prems(1,3) la that by simp
  from c Cons.prems(4) have sc: "start \<le> c" by simp
  show ?case
  proof (cases "parse_list_line l")
    case None
    with rl l(1) have e: "list_loop start files w = list_loop start files (print (WarnListLine l) ?v)"
      by (subst list_loop.simps) simp
    from ih [of "print (WarnListLine l) ?v" files] sc
    show ?thesis unfolding e using None by (auto simp: List.map_filter_simps)
  next
    case (Some d)
    with rl l(1) have e: "list_loop start files w = list_loop start (files @ [d]) ?v"
      by (subst list_loop.simps) simp
    from ih [of ?v "files @ [d]"] sc
    show ?thesis unfolding e using Some by (auto simp: List.map_filter_simps)
  qed
qed

lemma request_list_arrive:
  assumes "\<forall>l \<in> set ls. startswith l ''LIST:'' \<and> CR \<notin> set l"
    and "lines_arrive 20 ls (wire w) es" and "listing_ends e es"
  shows "fst (request_list w) = List.map_filter parse_list_line ls \<and>
         out (snd (request_list w)) =
           out w @ map WarnListLine (filter (\<lambda>l. parse_list_line l = None) ls) @ end_msgs e \<and>
         fs (snd (request_list w)) = fs w"
proof -
  let ?w1 = "send_cmd ''#LIST'' w"
  from assms(2) have "lines_arrive 20 ls (wire ?w1) es" by simp
  from list_loop_arrive [OF assms(1) this assms(3), of "clock ?w1" "[]"]
  obtain w' where "list_loop (clock ?w1) [] ?w1 = (List.map_filter parse_list_line ls, w')"
    "out w' = out ?w1 @ map WarnListLine (filter (\<lambda>l. parse_list_line l = None) ls) @ end_msgs e"
    "fs w' = fs ?w1"
    by auto
  then show ?thesis by (simp add: request_list_def Let_def)
qed

section \<open>Listing well-formed and malformed lines\<close>

text \<open>
  A list entry as the device writes it, \<open>LIST:<path>:<size>\<close>, and the descriptor it
  stands for. An entry is well formed when its path is made of ASCII characters, has no
  carriage return in it and no white space at either end (it may contain colons), and its
  size has no more digits than \<open>int\<close> accepts.
\<close>

definition list_line :: "string \<times> nat \<Rightarrow> string" where
  "list_line e = ''LIST:'' @ fst e @ '':'' @ dec (snd e)"

definition descriptor :: "string \<times> nat \<Rightarrow> string \<times> int" where
  "descriptor e = (fst e, int (snd e))"

definition well_formed_entry :: "string \<times> nat \<Rightarrow> bool" where
  "well_formed_entry e \<longleftrightarrow>
     ascii (fst e) \<and> CR \<notin> set (fst e) \<and> strip (fst e) = fst e \<and>
     length (dec (snd e)) \<le> int_max_str_digits"

lemma list_line_props:
  assumes "well_formed_entry e"
  shows "startswith (list_line e) ''LIST:''" and "CR \<notin> set (list_line e)"
    and "parse_list_line (list_line e) = Some (descriptor e)"
proof -
  show "startswith (list_line e) ''LIST:''"
    by (simp add: list_line_def startswith_def)
  have d: "\<And>c. c \<in> set (dec (snd e)) \<Longrightarrow> is_digit c" by (rule dec_digits)
  have "\<not> is_digit CR" "\<not> is_digit (CHR '':'')" by (simp_all add: is_digit_def CR_def)
  with d have nd: "CR \<notin> set (dec (snd e))" "CHR '':'' \<notin> set (dec (snd e))" by blast+
  with assms show "CR \<notin> set (list_line e)"
    by (simp add: list_line_def well_formed_entry_def CR_def)
  from assms have len: "length (dec (snd e)) \<le> int_max_str_digits"
    by (simp add: well_formed_entry_def)
  have "drop 5 (list_line e) = fst e @ CHR '':'' # dec (snd e)"
    by (simp add: list_line_def)
  with rsplit1_last [OF nd(2), of "fst e"] py_int_dec [OF len] assms
  show "parse_list_line (list_line e) = Some (descriptor e)"
    by (simp add: parse_list_line_def descriptor_def well_formed_entry_def)
qed

lemma map_filter_list_lines:
  "\<forall>e \<in> set es. well_formed_entry e \<Longrightarrow>
   List.map_filter parse_list_line (map list_line es) = map descriptor es"
  by (induction es) (simp_all add: List.map_filter_simps list_line_props)

lemma map_filter_app:
  "List.map_filter f (xs @ ys) = List.map_filter f xs @ List.map_filter f ys"
  by (simp add: List.map_filter_def)

lemma filter_bad_list_lines:
  "\<forall>e \<in> set es. well_formed_entry e \<Longrightarrow>
   filter (\<lambda>l. parse_list_line l = None) (map list_line es) = []"
  by (induction es) (simp_all add: list_line_props)

text \<open>
  C3. The device answers \<open>#LIST\<close> with N well-formed entries, each line complete within
  the two seconds that \<open>request_list\<close> waits for a line, in whatever pieces and with
  whatever pauses; then the listing ends, by silence, by an error line or by any other
  line. \<open>request_list\<close> returns exactly the N descriptors, in the order received, each
  with the path and the size of its line. The text after \<open>LIST:\<close> is cut at its last
  colon, so colons in a path do no harm.
\<close>

theorem request_list_well_formed:
  assumes "\<forall>e \<in> set entries. well_formed_entry e"
    and "lines_arrive 20 (map list_line entries) (wire w) es"
    and "listing_ends ending es"
  shows "fst (request_list w) = map descriptor entries \<and>
         length (fst (request_list w)) = length entries"
proof -
  have a: "\<forall>l \<in> set (map list_line entries). startswith l ''LIST:'' \<and> CR \<notin> set l"
    using assms(1) by (auto simp: list_line_props)
  from request_list_arrive [OF a assms(2,3)]
  have "fst (request_list w) = List.map_filter parse_list_line (map list_line entries)"
    by simp
  then show ?thesis
    using assms(1) by (simp add: map_filter_list_lines)
qed

theorem request_list_well_formed_witness:
  "fst (request_list (world0 [Idle, Data ''LIST:/logs/a:b'', Idle,
          Data (''.txt:42'' @ CRLF @ ''LIST:/logs/c.txt:7'' @ [CR]), Idle, Idle,
          Data ([LF] @ ''ERR:no more'' @ CRLF)]))
     = [(''/logs/a:b.txt'', 42), (''/logs/c.txt'', 7)]"
proof -
  let ?entries = "[(''/logs/a:b.txt'', 42), (''/logs/c.txt'', 7 :: nat)]"
  let ?w = "world0 [Idle, Data ''LIST:/logs/a:b'', Idle,
          Data (''.txt:42'' @ CRLF @ ''LIST:/logs/c.txt:7'' @ [CR]), Idle, Idle,
          Data ([LF] @ ''ERR:no more'' @ CRLF)]"
  have h1: "\<forall>e \<in> set ?entries. well_formed_entry e" by code_simp
  have h2: "lines_arrive 20 (map list_line ?entries) (wire ?w) [Data (''ERR:no more'' @ CRLF)]"
    by code_simp
  have h3: "listing_ends (Some ''ERR:no more'') [Data (''ERR:no more'' @ CRLF)]" by code_simp
  from request_list_well_formed [OF h1 h2 h3] show ?thesis by (simp add: descriptor_def)
qed

text \<open>
  C4. Among the lines of a listing there is one that starts with \<open>LIST:\<close> but does not
  parse (no colon after the prefix, or a size field that \<open>int\<close> rejects). It adds no
  descriptor and one warning; the entries before and after it are listed as usual, and the
  listing ends as it would have ended without that line.
\<close>

theorem request_list_skips_malformed:
  assumes "\<forall>e \<in> set before. well_formed_entry e"
    and "\<forall>e \<in> set after. well_formed_entry e"
    and "startswith bad ''LIST:''" and "CR \<notin> set bad" and "ascii bad"
    and "parse_list_line bad = None"
    and "lines_arrive 20 (map list_line before @ [bad] @ map list_line after) (wire w) es"
    and "listing_ends ending es"
  shows "fst (request_list w) = map descriptor before @ map descriptor after \<and>
         out (snd (request_list w)) = out w @ [WarnListLine bad] @ end_msgs ending"
proof -
  let ?ls = "map list_line before @ [bad] @ map list_line after"
  have a: "\<forall>l \<in> set ?ls. startswith l ''LIST:'' \<and> CR \<notin> set l"
    using assms(1-4) by (auto simp: list_line_props)
  note r = request_list_arrive [OF a assms(7,8)]
  have "List.map_filter parse_list_line ?ls = map descriptor before @ map descriptor after"
    using assms(1,2,6) by (simp add: map_filter_app map_filter_list_lines List.map_filter_simps)
  moreover have "filter (\<lambda>l. parse_list_line l = None) ?ls = [bad]"
    using assms(1,2,6) by (simp add: filter_bad_list_lines)
  ultimately show ?thesis
    using r by simp
qed

theorem request_list_skips_malformed_witness:
  "fst (request_list (world0 [Data (''LIST:/logs/a.txt:10'' @ CRLF @ ''LIST:/logs/b.txt:''), Idle,
          Data (''abc'' @ CRLF), Idle, Idle, Idle, Data (''LIST:/logs/c.txt:7'' @ CRLF)]))
     = [(''/logs/a.txt'', 10), (''/logs/c.txt'', 7)] \<and>
   out (snd (request_list (world0 [Data (''LIST:/logs/a.txt:10'' @ CRLF @ ''LIST:/logs/b.txt:''), Idle,
          Data (''abc'' @ CRLF), Idle, Idle, Idle, Data (''LIST:/logs/c.txt:7'' @ CRLF)])))
     = [WarnListLine ''LIST:/logs/b.txt:abc'']"
proof -
  let ?w = "world0 [Data (''LIST:/logs/a.txt:10'' @ CRLF @ ''LIST:/logs/b.txt:''), Idle,
          Data (''abc'' @ CRLF), Idle, Idle, Idle, Data (''LIST:/logs/c.txt:7'' @ CRLF)]"
  have h1: "\<forall>e \<in> set [(''/logs/a.txt'', 10 :: nat)]. well_formed_entry e" by code_simp
  have h2: "\<forall>e \<in> set [(''/logs/c.txt'', 7 :: nat)]. well_formed_entry e" by code_simp
  have h3: "startswith ''LIST:/logs/b.txt:abc'' ''LIST:''" by code_simp
  have h4: "CR \<notin> set ''LIST:/logs/b.txt:abc''" by code_simp
  have h5: "ascii ''LIST:/logs/b.txt:abc''" by code_simp
  have h6: "parse_list_line ''LIST:/logs/b.txt:abc'' = None" by code_simp
  have h7: "lines_arrive 20 (map list_line [(''/logs/a.txt'', 10 :: nat)]
                @ [''LIST:/logs/b.txt:abc''] @ map list_line [(''/logs/c.txt'', 7 :: nat)])
              (wire ?w) []"
    by code_simp
  have h8: "listing_ends None []" by code_simp
  from request_list_skips_malformed [OF h1 h2 h3 h4 h5 h6 h7 h8]
  show ?thesis by (simp add: descriptor_def world0_def end_msgs_def)
qed

section \<open>Sizes in a listing\<close>

lemma py_int_negative_sign:
  assumes "py_int s = Some n" and "n < 0"
  shows "take 1 (c_strip s) = ''-''"
  using assms
  by (auto simp: py_int_def split: list.splits if_splits)

lemma rsplit1_Some:
  assumes "rsplit1 sep s = Some (a, b)"
  shows "s = a @ sep # b" and "sep \<notin> set b"
proof -
  let ?P = "\<lambda>c. c \<noteq> sep"
  from assms have m: "sep \<in> set s" and a: "a = rev (tl (dropWhile ?P (rev s)))"
    and b: "b = rev (takeWhile ?P (rev s))"
    by (auto simp: rsplit1_def split: if_splits)
  from b show "sep \<notin> set b" by (auto dest: set_takeWhileD)
  from m have ne: "dropWhile ?P (rev s) \<noteq> []" by (auto simp: dropWhile_eq_Nil_conv)
  with hd_dropWhile [of ?P "rev s"] have "hd (dropWhile ?P (rev s)) = sep" by simp
  with ne have d: "dropWhile ?P (rev s) = sep # rev a"
    unfolding a by (cases "dropWhile ?P (rev s)") auto
  have "rev s = takeWhile ?P (rev s) @ dropWhile ?P (rev s)" by simp
  then have "rev s = rev b @ sep # rev a" unfolding d b by simp
  then have "rev (rev s) = rev (rev b @ sep # rev a)" by (rule arg_cong)
  then show "s = a @ sep # b" by simp
qed

lemma parse_list_line_Some:
  assumes "parse_list_line l = Some d"
  shows "\<exists>path size_s.
           drop 5 l = path @ '':'' @ size_s \<and> CHR '':'' \<notin> set size_s \<and>
           fst d = strip path \<and> py_int size_s = Some (snd d) \<and>
           (snd d < 0 \<longrightarrow> take 1 (c_strip size_s) = ''-'')"
proof -
  from assms obtain path size_s where
    f: "rsplit1 (CHR '':'') (drop 5 l) = Some (path, size_s)" "fst d = strip path"
       "py_int size_s = Some (snd d)"
    by (auto simp: parse_list_line_def split: option.splits)
  from rsplit1_Some [OF f(1)] have "drop 5 l = path @ '':'' @ size_s" "CHR '':'' \<notin> set size_s"
    by simp_all
  moreover from py_int_negative_sign [OF f(3)]
  have "snd d < 0 \<longrightarrow> take 1 (c_strip size_s) = ''-''" by simp
  ultimately show ?thesis using f(2,3) by blast
qed

lemma map_filter_mem:
  "d \<in> set (List.map_filter f xs) \<Longrightarrow> \<exists>x \<in> set xs. f x = Some d"
  by (auto simp: List.map_filter_def)

definition w_neg :: world where
  "w_neg = world0 [Data (''LIST:/logs/a.txt:-5'' @ CRLF)]"

text \<open>
  C8 as stated: every descriptor that \<open>request_list\<close> returns has a size of at least 0.
  The source passes the size field to \<open>int\<close> and keeps what it returns; \<open>int\<close> accepts a
  sign. For the line \<open>LIST:/logs/a.txt:-5\<close> the descriptor has size \<open>-5\<close>.
\<close>

theorem request_list_negative_size:
  "fst (request_list w_neg) = [(''/logs/a.txt'', - 5)]"
  by code_simp

text \<open>
  C8, amended. The device sends lines that start with \<open>LIST:\<close> and the listing ends.
  The descriptors that \<open>request_list\<close> returns are those of the lines that parse, in the
  order of the lines. Each of them comes from one of the lines received: its path is the
  stripped text between \<open>LIST:\<close> and the last colon of that line, and its size is the value
  that \<open>int\<close> gives to the text after the last colon. The size is negative only if that
  text, without the white space around it, starts with a minus sign.
\<close>

theorem request_list_size_of_field:
  assumes "\<forall>l \<in> set ls. startswith l ''LIST:'' \<and> CR \<notin> set l \<and> ascii l"
    and "lines_arrive 20 ls (wire w) es" and "listing_ends ending es"
  shows "fst (request_list w) = List.map_filter parse_list_line ls \<and>
         (\<forall>d \<in> set (fst (request_list w)). \<exists>l \<in> set ls. \<exists>path size_s.
            drop 5 l = path @ '':'' @ size_s \<and> CHR '':'' \<notin> set size_s \<and>
            fst d = strip path \<and> py_int size_s = Some (snd d) \<and>
            (snd d < 0 \<longrightarrow> take 1 (c_strip size_s) = ''-''))"
proof -
  from assms(1) have a: "\<forall>l \<in> set ls. startswith l ''LIST:'' \<and> CR \<notin> set l" by simp
  from request_list_arrive [OF a assms(2,3)]
  have r: "fst (request_list w) = List.map_filter parse_list_line ls" by simp
  have "\<exists>l \<in> set ls. \<exists>path size_s.
            drop 5 l = path @ '':'' @ size_s \<and> CHR '':'' \<notin> set size_s \<and>
            fst d = strip path \<and> py_int size_s = Some (snd d) \<and>
            (snd d < 0 \<longrightarrow> take 1 (c_strip size_s) = ''-'')"
    if "d \<in> set (List.map_filter parse_list_line ls)" for d
  proof -
    from map_filter_mem [OF that] obtain l where l: "l \<in> set ls" "parse_list_line l = Some d"
      by blast
    from parse_list_line_Some [OF l(2)] l(1) show ?thesis by blast
  qed
  with r show ?thesis by simp
qed

theorem request_list_size_of_field_witness:
  "fst (request_list (world0 [Idle, Data ''LIST:/logs/a.txt:-'', Idle, Data (''5'' @ CRLF),
                               Data (''LIST:/logs/b.txt: 7 '' @ CRLF)]))
     = [(''/logs/a.txt'', - 5), (''/logs/b.txt'', 7)] \<and>
   (\<exists>l path size_s.
      l \<in> set [''LIST:/logs/a.txt:-5'', ''LIST:/logs/b.txt: 7 ''] \<and>
      drop 5 l = path @ '':'' @ size_s \<and> CHR '':'' \<notin> set size_s \<and>
      ''/logs/a.txt'' = strip path \<and> py_int size_s = Some (- 5) \<and>
      take 1 (c_strip size_s) = ''-'')"
proof -
  let ?ls = "[''LIST:/logs/a.txt:-5'', ''LIST:/logs/b.txt: 7 '']"
  let ?w = "world0 [Idle, Data ''LIST:/logs/a.txt:-'', Idle, Data (''5'' @ CRLF),
                    Data (''LIST:/logs/b.txt: 7 '' @ CRLF)]"
  have h1: "\<forall>l \<in> set ?ls. startswith l ''LIST:'' \<and> CR \<notin> set l \<and> ascii l" by code_simp
  have h2: "lines_arrive 20 ?ls (wire ?w) []" by code_simp
  have h3: "listing_ends None []" by code_simp
  have m: "List.map_filter parse_list_line ?ls = [(''/logs/a.txt'', - 5), (''/logs/b.txt'', 7)]"
    by code_simp
  note t = request_list_size_of_field [OF h1 h2 h3]
  from t have r1: "fst (request_list ?w) = [(''/logs/a.txt'', - 5), (''/logs/b.txt'', 7)]"
    unfolding m by (rule conjunct1)
  from t have "\<forall>d \<in> set (fst (request_list ?w)). \<exists>l \<in> set ?ls. \<exists>path size_s.
            drop 5 l = path @ '':'' @ size_s \<and> CHR '':'' \<notin> set size_s \<and>
            fst d = strip path \<and> py_int size_s = Some (snd d) \<and>
            (snd d < 0 \<longrightarrow> take 1 (c_strip size_s) = ''-'')"
    by (rule conjunct2)
  then have "\<exists>l \<in> set ?ls. \<exists>path size_s.
            drop 5 l = path @ '':'' @ size_s \<and> CHR '':'' \<notin> set size_s \<and>
            fst (''/logs/a.txt'', - 5 :: int) = strip path \<and>
            py_int size_s = Some (snd (''/logs/a.txt'', - 5 :: int)) \<and>
            (snd (''/logs/a.txt'', - 5 :: int) < 0 \<longrightarrow> take 1 (c_strip size_s) = ''-'')"
    unfolding r1 by (rule bspec) simp
  then have x: "\<exists>l \<in> set ?ls. \<exists>path size_s.
            drop 5 l = path @ '':'' @ size_s \<and> CHR '':'' \<notin> set size_s \<and>
            ''/logs/a.txt'' = strip path \<and> py_int size_s = Some (- 5) \<and>
            ((- 5 :: int) < 0 \<longrightarrow> take 1 (c_strip size_s) = ''-'')"
    by (simp only: fst_conv snd_conv)
  have n: "(- 5 :: int) < 0" by simp
  from x n have r2: "\<exists>l path size_s.
      l \<in> set ?ls \<and>
      drop 5 l = path @ '':'' @ size_s \<and> CHR '':'' \<notin> set size_s \<and>
      ''/logs/a.txt'' = strip path \<and> py_int size_s = Some (- 5) \<and>
      take 1 (c_strip size_s) = ''-''"
    by blast
  from r1 r2 show ?thesis by (intro conjI)
qed

section \<open>A download whose header has arrived\<close>

text \<open>\<open>can_store w out_dir p\<close>: in the file system of \<open>w\<close> the output directory can be
  made and the file \<open>p\<close> can be opened for writing. \<open>out_path_of\<close> is the path that
  \<open>request_get\<close> computes from the output directory and the announced path.\<close>

definition can_store :: "world \<Rightarrow> string \<Rightarrow> string \<Rightarrow> bool" where
  "can_store w out_dir p =
     (case makedirs out_dir w of
        Inl _ \<Rightarrow> False
      | Inr w3 \<Rightarrow> (case open_wb p w3 of Inl _ \<Rightarrow> False | Inr _ \<Rightarrow> True))"

definition out_path_of :: "bool \<Rightarrow> string \<Rightarrow> string \<Rightarrow> string" where
  "out_path_of windows out_dir recv_path =
     os_join windows out_dir (os_basename windows (strip recv_path))"

lemma makedirs_fs:
  "makedirs d w = Inr w3 \<Longrightarrow> fs v = fs w \<Longrightarrow> makedirs d v = Inr (v\<lparr>fs := (fs w)(d \<mapsto> Dir)\<rparr>)"
  by (auto simp: makedirs_def split: if_splits option.splits node.splits)

lemma open_wb_fs:
  "open_wb p w = Inr w5 \<Longrightarrow> fs v = fs w \<Longrightarrow> nt v = nt w \<Longrightarrow>
   open_wb p v = Inr (v\<lparr>fs := (fs w)(p \<mapsto> File [])\<rparr>)"
  by (auto simp: open_wb_def split: if_splits)

lemma makedirs_Inr: "makedirs d w = Inr w3 \<Longrightarrow> w3 = w\<lparr>fs := (fs w)(d \<mapsto> Dir)\<rparr>"
  by (auto simp: makedirs_def split: if_splits option.splits node.splits)

lemma open_wb_Inr: "open_wb p w = Inr w5 \<Longrightarrow> w5 = w\<lparr>fs := (fs w)(p \<mapsto> File [])\<rparr>"
  by (auto simp: open_wb_def split: if_splits)

lemma can_store_makedirs:
  assumes "can_store w d p" and "fs v = fs w"
  shows "makedirs d v = Inr (v\<lparr>fs := (fs w)(d \<mapsto> Dir)\<rparr>)"
proof -
  from assms(1) obtain w3 where m: "makedirs d w = Inr w3"
    by (auto simp: can_store_def split: sum.splits)
  from makedirs_fs [OF m assms(2)] show ?thesis .
qed

lemma can_store_open:
  assumes "can_store w d p" and "fs u = (fs w)(d \<mapsto> Dir)" and "nt u = nt w"
  shows "open_wb p u = Inr (u\<lparr>fs := (fs w)(d \<mapsto> Dir, p \<mapsto> File [])\<rparr>)"
proof -
  from assms(1) obtain w3 w5 where m: "makedirs d w = Inr w3" and o: "open_wb p w3 = Inr w5"
    by (auto simp: can_store_def split: sum.splits)
  from makedirs_Inr [OF m] have f3: "fs w3 = (fs w)(d \<mapsto> Dir)" and n3: "nt w3 = nt w"
    by simp_all
  with assms(2,3) have "fs u = fs w3" "nt u = nt w3" by simp_all
  from open_wb_fs [OF o this] f3 show ?thesis by simp
qed

lemma can_store_iff:
  "can_store w d p \<longleftrightarrow>
     d \<noteq> [] \<and> (\<forall>bs. fs w d \<noteq> Some (File bs)) \<and> p \<noteq> [] \<and> os_basename (nt w) p \<noteq> [] \<and>
     os_basename (nt w) p \<noteq> ''.'' \<and> os_basename (nt w) p \<noteq> ''..'' \<and> p \<noteq> d \<and>
     fs w p \<noteq> Some Dir"
  by (auto simp: can_store_def makedirs_def open_wb_def split: option.splits node.splits)

lemma can_store_again:
  assumes "can_store w d p" and "fs v = (fs w)(d \<mapsto> Dir, p \<mapsto> File bs)" and "nt v = nt w"
  shows "can_store v d p"
  using assms by (auto simp: can_store_iff)

lemma stores_can_store:
  assumes "makedirs d v = Inr v3" and "open_wb p u = Inr u5" and "fs v = fs w" and "fs u = fs v3"
    and "nt u = nt w"
  shows "can_store w d p"
proof -
  from makedirs_Inr [OF assms(1)] have "fs v3 = (fs v)(d \<mapsto> Dir)" by simp
  with assms show ?thesis
    by (auto simp: can_store_iff makedirs_def open_wb_def split: if_splits option.splits node.splits)
qed

lemma startswith_iff: "startswith s p \<longleftrightarrow> (\<exists>t. s = p @ t)"
  unfolding startswith_def by (metis append_eq_conv_conj append_take_drop_id)

lemma FILEBEGIN_not_ERR: "startswith hdr ''FILEBEGIN '' \<Longrightarrow> \<not> startswith hdr ''ERR:''"
  by (auto simp: startswith_iff)

lemma read_line_loop_bytes:
  "read_line_loop d buf w = (Some l, v) \<Longrightarrow> buf @ wire_bytes w = l @ CRLF @ wire_bytes v"
proof (induction d buf w rule: read_line_loop.induct)
  case (1 d buf w)
  show ?case
  proof (cases "clock w < d")
    case False
    with "1.prems" show ?thesis by (simp add: read_line_loop.simps)
  next
    case True
    obtain b u where r: "ser_read 1 w = (b, u)" by (cases "ser_read 1 w")
    from ser_read_bytes [OF r] have wb: "wire_bytes w = b @ wire_bytes u" by simp
    show ?thesis
    proof (cases "b = []")
      case e: True
      with True r "1.prems" have "read_line_loop d buf u = (Some l, v)"
        by (subst (asm) read_line_loop.simps) simp
      from "1.IH"(1) [OF True r [symmetric] e this] wb e show ?thesis by simp
    next
      case ne: False
      show ?thesis
      proof (cases "endswith (buf @ b) CRLF")
        case True
        with ne \<open>clock w < d\<close> r "1.prems"
        have "v = u" "l = take (length (buf @ b) - 2) (buf @ b)"
          by (subst (asm) read_line_loop.simps, simp)+
        with endswith_CRLF_split [OF True] wb show ?thesis
          by (metis append.assoc)
      next
        case False
        with ne True r "1.prems" have "read_line_loop d (buf @ b) u = (Some l, v)"
          by (subst (asm) read_line_loop.simps) simp
        from "1.IH"(2) [OF True r [symmetric] ne False this] wb show ?thesis by simp
      qed
    qed
  qed
qed

lemma read_line_bytes:
  "read_line t w = (Some l, v) \<Longrightarrow> wire_bytes w = l @ CRLF @ wire_bytes v"
  unfolding read_line_def by (drule read_line_loop_bytes) simp

lemma wire_bytes_frame [simp]:
  "wire_bytes (print m w) = wire_bytes w" "wire_bytes (send_cmd c w) = wire_bytes w"
  "wire_bytes (file_write p b w) = wire_bytes w" "wire_bytes (w\<lparr>fs := f\<rparr>) = wire_bytes w"
  by (simp_all add: wire_bytes_def)

lemma request_get_parsed:
  assumes "read_line READ_LINE_TIMEOUT_S (send_cmd (''#GET '' @ path) w) = (Some hdr, w2)"
    and "startswith hdr ''FILEBEGIN ''" and "parse_header hdr = Some (recv_path, sz)"
  shows "request_get path out_dir w =
     (case makedirs out_dir w2 of
        Inl e \<Rightarrow> (Inl e, w2)
      | Inr w3 \<Rightarrow>
          (case open_wb (out_path_of (nt w) out_dir recv_path)
                  (print (InfoReceiving recv_path sz (out_path_of (nt w) out_dir recv_path)) w3) of
             Inl e \<Rightarrow> (Inl e, print (InfoReceiving recv_path sz (out_path_of (nt w) out_dir recv_path)) w3)
           | Inr w5 \<Rightarrow>
               (case recv_loop (out_path_of (nt w) out_dir recv_path)
                       (clock (print (InfoReceiving recv_path sz (out_path_of (nt w) out_dir recv_path)) w3)
                          + READ_FILE_TIMEOUT_S) sz w5 of
                  (remaining, w6) \<Rightarrow>
                    if remaining \<noteq> 0 then (Inr False, print (ErrShort remaining) w6)
                    else
                      (case read_line 50 w6 of
                         (None, w7) \<Rightarrow> (Inr False, print (ErrFooter None) w7)
                       | (Some footer, w7) \<Rightarrow>
                           if \<not> startswith footer ''FILEEND''
                           then (Inr False, print (ErrFooter (Some footer)) w7)
                           else (Inr True, print OkDone w7)))))"
  by (simp only: request_get_def Let_def assms(1) prod.case option.case
        assms(2,3) FILEBEGIN_not_ERR [OF assms(2)] if_False if_True not_True_eq_False
        not_False_eq_True out_path_of_def [symmetric])

text \<open>A call whose header has been read and parsed and whose file can be stored: the
  receive loop leaves the bytes that arrive in time in the file, and the rest of the call
  goes on from there.\<close>

lemma request_get_stored:
  assumes "read_line READ_LINE_TIMEOUT_S (send_cmd (''#GET '' @ path) w) = (Some hdr, w2)"
    and "startswith hdr ''FILEBEGIN ''" and "parse_header hdr = Some (recv_path, sz)"
    and "can_store w out_dir (out_path_of (nt w) out_dir recv_path)"
    and "pull READ_FILE_TIMEOUT_S (nat sz) (wire w2) = (b, es2)"
  shows "\<exists>w6. wire w6 = es2 \<and>
           fs w6 = (fs w)(out_dir \<mapsto> Dir, out_path_of (nt w) out_dir recv_path \<mapsto> File b) \<and>
           out w6 = out w @ [InfoReceiving recv_path sz (out_path_of (nt w) out_dir recv_path)] \<and>
           nt w6 = nt w \<and>
           request_get path out_dir w =
             (if sz - int (length b) \<noteq> 0
              then (Inr False, print (ErrShort (sz - int (length b))) w6)
              else (case read_line 50 w6 of
                      (None, w7) \<Rightarrow> (Inr False, print (ErrFooter None) w7)
                    | (Some footer, w7) \<Rightarrow>
                        if \<not> startswith footer ''FILEEND''
                        then (Inr False, print (ErrFooter (Some footer)) w7)
                        else (Inr True, print OkDone w7)))"
proof -
  define p where "p = out_path_of (nt w) out_dir recv_path"
  define w3 where "w3 = w2\<lparr>fs := (fs w)(out_dir \<mapsto> Dir)\<rparr>"
  define w4 where "w4 = print (InfoReceiving recv_path sz p) w3"
  define w5 where "w5 = w4\<lparr>fs := (fs w)(out_dir \<mapsto> Dir, p \<mapsto> File [])\<rparr>"
  note f2 = read_line_frame [OF assms(1)]
  from f2 have "fs w2 = fs w" by simp
  from can_store_makedirs [OF assms(4) this] have m: "makedirs out_dir w2 = Inr w3"
    by (simp add: w3_def)
  have "fs w4 = (fs w)(out_dir \<mapsto> Dir)" "nt w4 = nt w"
    using f2 by (simp_all add: w4_def w3_def)
  from can_store_open [OF assms(4) this] have o: "open_wb p w4 = Inr w5"
    by (simp add: w5_def p_def)
  have f5: "fs w5 p = Some (File [])" by (simp add: w5_def)
  have "pull (clock w4 + READ_FILE_TIMEOUT_S - clock w5) (nat sz) (wire w5) = (b, es2)"
    using assms(5) by (simp add: w5_def w4_def w3_def)
  from recv_loop_pull [OF f5 this]
  obtain c where l: "recv_loop p (clock w4 + READ_FILE_TIMEOUT_S) sz w5 =
      (sz - int (length b), w5\<lparr>wire := es2, clock := c, fs := (fs w5)(p \<mapsto> File ([] @ b))\<rparr>)"
    by blast
  define w6 where "w6 = w5\<lparr>wire := es2, clock := c, fs := (fs w5)(p \<mapsto> File ([] @ b))\<rparr>"
  have g: "request_get path out_dir w =
             (if sz - int (length b) \<noteq> 0
              then (Inr False, print (ErrShort (sz - int (length b))) w6)
              else (case read_line 50 w6 of
                      (None, w7) \<Rightarrow> (Inr False, print (ErrFooter None) w7)
                    | (Some footer, w7) \<Rightarrow>
                        if \<not> startswith footer ''FILEEND''
                        then (Inr False, print (ErrFooter (Some footer)) w7)
                        else (Inr True, print OkDone w7)))"
    unfolding request_get_parsed [OF assms(1-3)] p_def [symmetric] m sum.case
      w4_def [symmetric] o l w6_def [symmetric] prod.case ..
  have a: "wire w6 = es2" by (simp add: w6_def)
  have b: "fs w6 = (fs w)(out_dir \<mapsto> Dir, p \<mapsto> File b)" by (simp add: w6_def w5_def)
  have c: "out w6 = out w @ [InfoReceiving recv_path sz p]"
    using f2 by (simp add: w6_def w5_def w4_def w3_def)
  have n: "nt w6 = nt w"
    using f2 by (simp add: w6_def w5_def w4_def w3_def)
  show ?thesis
    unfolding p_def [symmetric]
    by (intro exI [of _ w6] conjI) (fact a b c n g)+
qed

lemma request_get_complete:
  assumes "CR \<notin> set hdr" and "startswith hdr ''FILEBEGIN ''"
    and "parse_header hdr = Some (recv_path, sz)"
    and "arrives READ_LINE_TIMEOUT_S (hdr @ CRLF) (wire w) es1"
    and "int (length payload) = sz" and "arrives READ_FILE_TIMEOUT_S payload es1 es2"
    and "CR \<notin> set footer" and "arrives 50 (footer @ CRLF) es2 es3"
    and "can_store w out_dir (out_path_of (nt w) out_dir recv_path)"
  shows "\<exists>w'. request_get path out_dir w = (Inr (startswith footer ''FILEEND''), w') \<and>
              wire w' = es3 \<and> nt w' = nt w \<and>
              fs w' = (fs w)(out_dir \<mapsto> Dir, out_path_of (nt w) out_dir recv_path \<mapsto> File payload)"
proof -
  let ?p = "out_path_of (nt w) out_dir recv_path"
  let ?w1 = "send_cmd (''#GET '' @ path) w"
  from assms(4) have "arrives READ_LINE_TIMEOUT_S (hdr @ CRLF) (wire ?w1) es1" by simp
  from read_line_arrives [OF assms(1) this]
  obtain c where r: "read_line READ_LINE_TIMEOUT_S ?w1 = (Some hdr, ?w1\<lparr>wire := es1, clock := c\<rparr>)"
    by blast
  from assms(5) have "nat sz = length payload" by simp
  with assms(6)
  have "pull READ_FILE_TIMEOUT_S (nat sz) (wire (?w1\<lparr>wire := es1, clock := c\<rparr>)) = (payload, es2)"
    by (simp add: arrives_def)
  from request_get_stored [OF r assms(2,3,9) this]
  obtain w6 where a: "wire w6 = es2" and b: "fs w6 = (fs w)(out_dir \<mapsto> Dir, ?p \<mapsto> File payload)"
    and n: "nt w6 = nt w"
    and g: "request_get path out_dir w =
             (if sz - int (length payload) \<noteq> 0
              then (Inr False, print (ErrShort (sz - int (length payload))) w6)
              else (case read_line 50 w6 of
                      (None, w7) \<Rightarrow> (Inr False, print (ErrFooter None) w7)
                    | (Some footer, w7) \<Rightarrow>
                        if \<not> startswith footer ''FILEEND''
                        then (Inr False, print (ErrFooter (Some footer)) w7)
                        else (Inr True, print OkDone w7)))"
    by (elim exE conjE) (rule that; assumption)
  from assms(5) have z: "sz - int (length payload) = 0" by simp
  from assms(8) a have "arrives 50 (footer @ CRLF) (wire w6) es3" by simp
  from read_line_arrives [OF assms(7) this]
  obtain c' where r2: "read_line 50 w6 = (Some footer, w6\<lparr>wire := es3, clock := c'\<rparr>)" by blast
  let ?w7 = "w6\<lparr>wire := es3, clock := c'\<rparr>"
  have e: "request_get path out_dir w =
       (Inr (startswith footer ''FILEEND''),
        print (if startswith footer ''FILEEND'' then OkDone else ErrFooter (Some footer)) ?w7)"
    unfolding g z r2 by (simp del: print_frame)
  show ?thesis
    unfolding e using b n by (intro exI [of _ "print (if startswith footer ''FILEEND'' then OkDone else ErrFooter (Some footer)) ?w7"]) simp
qed

lemma request_get_returns_can_store:
  assumes "read_line READ_LINE_TIMEOUT_S (send_cmd (''#GET '' @ path) w) = (Some hdr, w2)"
    and "startswith hdr ''FILEBEGIN ''" and "parse_header hdr = Some (recv_path, sz)"
    and "request_get path out_dir w = (Inr b, w')"
  shows "can_store w out_dir (out_path_of (nt w) out_dir recv_path)"
proof -
  let ?p = "out_path_of (nt w) out_dir recv_path"
  note g = request_get_parsed [OF assms(1-3), of out_dir]
  note f2 = read_line_frame [OF assms(1)]
  from assms(4) g obtain w3 where m: "makedirs out_dir w2 = Inr w3"
    by (cases "makedirs out_dir w2") auto
  let ?w4 = "print (InfoReceiving recv_path sz ?p) w3"
  from assms(4) g m obtain w5 where o: "open_wb ?p ?w4 = Inr w5"
    by (cases "open_wb ?p ?w4") auto
  from f2 have f: "fs w2 = fs (send_cmd (''#GET '' @ path) w)" by simp
  have "nt ?w4 = nt w" using f2 makedirs_Inr [OF m] by simp
  from stores_can_store [OF m o _ _ this] f2 show ?thesis by simp
qed

text \<open>Every run of \<open>request_get\<close> that has read a header which parses and that returns
  (rather than raises) has gone through the receive loop, started on the empty file.\<close>

lemma request_get_cases:
  assumes "read_line READ_LINE_TIMEOUT_S (send_cmd (''#GET '' @ path) w) = (Some hdr, w2)"
    and "startswith hdr ''FILEBEGIN ''" and "parse_header hdr = Some (recv_path, sz)"
    and "request_get path out_dir w = (Inr b, w')"
  shows "\<exists>w5 w6 r.
           fs w5 = (fs w)(out_dir \<mapsto> Dir, out_path_of (nt w) out_dir recv_path \<mapsto> File []) \<and>
           wire_bytes w5 = wire_bytes w2 \<and>
           out w5 = out w @ [InfoReceiving recv_path sz (out_path_of (nt w) out_dir recv_path)] \<and>
           port_open w5 = port_open w \<and>
           recv_loop (out_path_of (nt w) out_dir recv_path) (clock w5 + READ_FILE_TIMEOUT_S) sz w5 = (r, w6) \<and>
           (if r \<noteq> 0 then \<not> b \<and> w' = print (ErrShort r) w6
            else (case read_line 50 w6 of
                    (None, w7) \<Rightarrow> \<not> b \<and> w' = print (ErrFooter None) w7
                  | (Some footer, w7) \<Rightarrow>
                      if \<not> startswith footer ''FILEEND''
                      then \<not> b \<and> w' = print (ErrFooter (Some footer)) w7
                      else b \<and> w' = print OkDone w7))"
proof -
  define p where "p = out_path_of (nt w) out_dir recv_path"
  define w1 where "w1 = send_cmd (''#GET '' @ path) w"
  note nE = FILEBEGIN_not_ERR [OF assms(2)]
  note f2 = read_line_frame [OF assms(1)]
  have g: "request_get path out_dir w =
     (case makedirs out_dir w2 of
        Inl e \<Rightarrow> (Inl e, w2)
      | Inr w3 \<Rightarrow>
          (case open_wb p (print (InfoReceiving recv_path sz p) w3) of
             Inl e \<Rightarrow> (Inl e, print (InfoReceiving recv_path sz p) w3)
           | Inr w5 \<Rightarrow>
               (case recv_loop p (clock (print (InfoReceiving recv_path sz p) w3) + READ_FILE_TIMEOUT_S) sz w5 of
                  (remaining, w6) \<Rightarrow>
                    if remaining \<noteq> 0 then (Inr False, print (ErrShort remaining) w6)
                    else
                      (case read_line 50 w6 of
                         (None, w7) \<Rightarrow> (Inr False, print (ErrFooter None) w7)
                       | (Some footer, w7) \<Rightarrow>
                           if \<not> startswith footer ''FILEEND''
                           then (Inr False, print (ErrFooter (Some footer)) w7)
                           else (Inr True, print OkDone w7)))))"
    by (simp only: request_get_def Let_def assms(1) prod.case option.case
          assms(2,3) nE if_False if_True not_True_eq_False not_False_eq_True
          out_path_of_def [symmetric] p_def [symmetric])
  from assms(4) g obtain w3 where m: "makedirs out_dir w2 = Inr w3"
    by (cases "makedirs out_dir w2") auto
  let ?w4 = "print (InfoReceiving recv_path sz p) w3"
  from assms(4) g m obtain w5 where o: "open_wb p ?w4 = Inr w5"
    by (cases "open_wb p ?w4") auto
  obtain r w6 where l: "recv_loop p (clock ?w4 + READ_FILE_TIMEOUT_S) sz w5 = (r, w6)"
    by (cases "recv_loop p (clock ?w4 + READ_FILE_TIMEOUT_S) sz w5")
  note w3 = makedirs_Inr [OF m] and w5 = open_wb_Inr [OF o]
  have a: "fs w5 = (fs w)(out_dir \<mapsto> Dir, p \<mapsto> File [])" "wire_bytes w5 = wire_bytes w2"
    "out w5 = out w @ [InfoReceiving recv_path sz p]" "port_open w5 = port_open w"
    "clock w5 = clock ?w4"
    using f2 by (simp_all add: w3 w5)
  from assms(4) have c:
    "(if r \<noteq> 0 then \<not> b \<and> w' = print (ErrShort r) w6
            else (case read_line 50 w6 of
                    (None, w7) \<Rightarrow> \<not> b \<and> w' = print (ErrFooter None) w7
                  | (Some footer, w7) \<Rightarrow>
                      if \<not> startswith footer ''FILEEND''
                      then \<not> b \<and> w' = print (ErrFooter (Some footer)) w7
                      else b \<and> w' = print OkDone w7))"
    unfolding g m o l sum.case prod.case
    by (auto split: if_splits prod.splits option.splits)
  from l a(5) have l': "recv_loop p (clock w5 + READ_FILE_TIMEOUT_S) sz w5 = (r, w6)"
    by simp
  show ?thesis
    unfolding p_def [symmetric]
    by (intro exI [of _ w5] exI [of _ w6] exI [of _ r] conjI)
       (fact a(1) a(2) a(3) a(4) l' c)+
qed

section \<open>Every way out of \<open>request_get\<close>\<close>

text \<open>The four ways in which \<open>request_get\<close> gives up before it receives.\<close>

lemma request_get_no_header:
  assumes "read_line READ_LINE_TIMEOUT_S (send_cmd (''#GET '' @ path) w) = (None, w2)"
  shows "request_get path out_dir w = (Inr False, print (ErrNoHeader path) w2)"
  by (simp only: request_get_def Let_def assms prod.case option.case)

lemma request_get_err_header:
  assumes "read_line READ_LINE_TIMEOUT_S (send_cmd (''#GET '' @ path) w) = (Some hdr, w2)"
    and "startswith hdr ''ERR:''"
  shows "request_get path out_dir w = (Inr False, print (Esp32Error hdr) w2)"
  by (simp only: request_get_def Let_def assms prod.case option.case if_True)

lemma request_get_unexpected_header:
  assumes "read_line READ_LINE_TIMEOUT_S (send_cmd (''#GET '' @ path) w) = (Some hdr, w2)"
    and "\<not> startswith hdr ''ERR:''" and "\<not> startswith hdr ''FILEBEGIN ''"
  shows "request_get path out_dir w = (Inr False, print (ErrUnexpectedHeader hdr) w2)"
  by (simp only: request_get_def Let_def assms prod.case option.case if_True if_False
        not_False_eq_True)

lemma request_get_unparsed_header:
  assumes "read_line READ_LINE_TIMEOUT_S (send_cmd (''#GET '' @ path) w) = (Some hdr, w2)"
    and "startswith hdr ''FILEBEGIN ''" and "parse_header hdr = None"
  shows "request_get path out_dir w = (Inr False, print (ErrHeaderParse hdr) w2)"
  by (simp only: request_get_def Let_def assms FILEBEGIN_not_ERR [OF assms(2)]
        prod.case option.case if_True if_False not_True_eq_False)

lemma request_get_True_header:
  assumes "request_get path out_dir w = (Inr True, w')"
  obtains hdr w2 recv_path sz
    where "read_line READ_LINE_TIMEOUT_S (send_cmd (''#GET '' @ path) w) = (Some hdr, w2)"
      and "startswith hdr ''FILEBEGIN ''" and "parse_header hdr = Some (recv_path, sz)"
proof -
  let ?w1 = "send_cmd (''#GET '' @ path) w"
  obtain x w2 where r: "read_line READ_LINE_TIMEOUT_S ?w1 = (x, w2)"
    by (cases "read_line READ_LINE_TIMEOUT_S ?w1")
  show ?thesis
  proof (cases x)
    case None
    from request_get_no_header [OF r [unfolded None], of out_dir] assms show ?thesis by simp
  next
    case (Some hdr)
    note r' = r [unfolded Some]
    show ?thesis
    proof (cases "startswith hdr ''ERR:''")
      case True
      from request_get_err_header [OF r' True, of out_dir] assms show ?thesis by simp
    next
      case nE: False
      show ?thesis
      proof (cases "startswith hdr ''FILEBEGIN ''")
        case False
        from request_get_unexpected_header [OF r' nE False, of out_dir] assms
        show ?thesis by simp
      next
        case True
        show ?thesis
        proof (cases "parse_header hdr")
          case None
          from request_get_unparsed_header [OF r' True None, of out_dir] assms
          show ?thesis by simp
        next
          case (Some a)
          obtain recv_path sz where "a = (recv_path, sz)" by (cases a)
          with Some have "parse_header hdr = Some (recv_path, sz)" by simp
          from that [OF r' True this] show ?thesis .
        qed
      qed
    qed
  qed
qed

lemma request_get_True:
  assumes "request_get path out_dir w = (Inr True, w')"
  shows "\<exists>hdr recv_path sz bs footer.
           startswith hdr ''FILEBEGIN '' \<and> parse_header hdr = Some (recv_path, sz) \<and>
           fs w' (out_path_of (nt w) out_dir recv_path) = Some (File bs) \<and> int (length bs) = sz \<and>
           startswith footer ''FILEEND'' \<and>
           wire_bytes w = hdr @ CRLF @ bs @ footer @ CRLF @ wire_bytes w'"
proof -
  from assms obtain hdr w2 recv_path sz
    where r: "read_line READ_LINE_TIMEOUT_S (send_cmd (''#GET '' @ path) w) = (Some hdr, w2)"
      and sw: "startswith hdr ''FILEBEGIN ''" and ph: "parse_header hdr = Some (recv_path, sz)"
    by (rule request_get_True_header)
  let ?p = "out_path_of (nt w) out_dir recv_path"
  from request_get_cases [OF r sw ph assms]
  obtain w5 w6 rem where c1: "fs w5 = (fs w)(out_dir \<mapsto> Dir, ?p \<mapsto> File [])"
    and c2: "wire_bytes w5 = wire_bytes w2"
    and c3: "recv_loop ?p (clock w5 + READ_FILE_TIMEOUT_S) sz w5 = (rem, w6)"
    and c4: "if rem \<noteq> 0 then \<not> True \<and> w' = print (ErrShort rem) w6
     else (case read_line 50 w6 of
             (None, w7) \<Rightarrow> \<not> True \<and> w' = print (ErrFooter None) w7
           | (Some footer, w7) \<Rightarrow>
               if \<not> startswith footer ''FILEEND''
               then \<not> True \<and> w' = print (ErrFooter (Some footer)) w7
               else True \<and> w' = print OkDone w7)"
    by (elim exE conjE) (rule that; assumption)
  from c4 have rem: "rem = 0" by (cases "rem = 0") simp_all
  obtain y w7 where r2: "read_line 50 w6 = (y, w7)" by (cases "read_line 50 w6")
  have "y \<noteq> None"
  proof
    assume "y = None"
    with c4 rem r2 show False by simp
  qed
  then obtain footer where yf: "y = Some footer" by (cases y) simp_all
  from c4 rem r2 yf have "startswith footer ''FILEEND'' \<and> w' = print OkDone w7"
    by (simp split: if_splits)
  with yf have f: "y = Some footer" "startswith footer ''FILEEND''" "w' = print OkDone w7"
    by simp_all
  from c1 have "fs w5 ?p = Some (File [])" by simp
  from recv_loop_inv [OF c3 this] rem
  obtain bs where bs: "fs w6 = (fs w5)(?p \<mapsto> File bs)" "int (length bs) = sz"
    "wire_bytes w5 = bs @ wire_bytes w6"
    by auto
  from read_line_bytes [OF r] have b1: "wire_bytes w = hdr @ CRLF @ wire_bytes w2"
    by simp
  from read_line_bytes [OF r2 [unfolded f(1)]] have b2: "wire_bytes w6 = footer @ CRLF @ wire_bytes w7" .
  from read_line_frame [OF r2] have "fs w7 = fs w6" by simp
  with bs(1) f(3) have g1: "fs w' ?p = Some (File bs)" by simp
  from b1 b2 bs(3) c2 f(3)
  have g2: "wire_bytes w = hdr @ CRLF @ bs @ footer @ CRLF @ wire_bytes w'" by simp
  show ?thesis
    by (intro exI [of _ hdr] exI [of _ recv_path] exI [of _ sz] exI [of _ bs] exI [of _ footer] conjI)
       (fact sw ph g1 bs(2) f(2) g2)+
qed

section \<open>When a download succeeds\<close>

definition get_world :: "string \<Rightarrow> world" where
  "get_world bs = world0 [Data bs]"

text \<open>
  C1 as stated: whenever the header parses, exactly the announced number of bytes follows
  and a footer line starting with \<open>FILEEND\<close> follows them, \<open>request_get\<close> returns
  success and the file is written. The name of the file is the last component of the
  announced path, and the source opens it without looking at it. For the announced path
  \<open>/logs/\<close> that component is empty, the path to open is the output directory with a
  separator at its end, and \<open>open\<close> raises \<open>IsADirectoryError\<close>: \<open>request_get\<close>
  does not return, no file is written, and the answer of the device stays unread.
\<close>

theorem request_get_directory_path:
  "parse_header ''FILEBEGIN /logs/ 3'' = Some (''/logs/'', 3) \<and>
   out_path_of False ''out'' ''/logs/'' = ''out/'' \<and>
   fst (request_get ''/logs/'' ''out''
          (get_world (''FILEBEGIN /logs/ 3'' @ CRLF @ ''abc'' @ ''FILEEND'' @ CRLF)))
     = Inl IsADirectoryError \<and>
   fs (snd (request_get ''/logs/'' ''out''
          (get_world (''FILEBEGIN /logs/ 3'' @ CRLF @ ''abc'' @ ''FILEEND'' @ CRLF)))) ''out/''
     = None \<and>
   wire (snd (request_get ''/logs/'' ''out''
          (get_world (''FILEBEGIN /logs/ 3'' @ CRLF @ ''abc'' @ ''FILEEND'' @ CRLF))))
     = [Data (''abc'' @ ''FILEEND'' @ CRLF)]"
  by code_simp

text \<open>
  C1, amended. The output directory can be made and the file named by the last component
  of the announced path can be opened (\<open>can_store\<close>). The header line arrives within the
  line timeout and parses, exactly the announced number of payload bytes arrives within the
  file timeout, in whatever pieces and with whatever pauses, and a footer line arrives
  within its timeout: \<open>request_get\<close> returns \<open>True\<close> exactly if the footer starts with
  \<open>FILEEND\<close>, the file holds the payload, and the port is left just behind the footer.
  When the payload is complete but the device is silent afterwards, \<open>request_get\<close>
  returns \<open>False\<close>. And whenever \<open>request_get\<close> returns \<open>True\<close>, a header was read
  and parsed, the file holds as many bytes as the header announced, and a footer starting
  with \<open>FILEEND\<close> followed them on the wire.
\<close>

theorem request_get_success_conditions:
  "(CR \<notin> set hdr \<and> ascii hdr \<and> startswith hdr ''FILEBEGIN '' \<and> parse_header hdr = Some (recv_path, sz) \<and>
    arrives READ_LINE_TIMEOUT_S (hdr @ CRLF) (wire w) es1 \<and>
    int (length payload) = sz \<and> arrives READ_FILE_TIMEOUT_S payload es1 es2 \<and>
    CR \<notin> set footer \<and> ascii footer \<and> arrives 50 (footer @ CRLF) es2 es3 \<and>
    can_store w out_dir (out_path_of (nt w) out_dir recv_path)
    \<longrightarrow> fst (request_get path out_dir w) = Inr (startswith footer ''FILEEND'') \<and>
        fs (snd (request_get path out_dir w)) (out_path_of (nt w) out_dir recv_path) = Some (File payload) \<and>
        wire (snd (request_get path out_dir w)) = es3) \<and>
   (CR \<notin> set hdr \<and> ascii hdr \<and> startswith hdr ''FILEBEGIN '' \<and> parse_header hdr = Some (recv_path, sz) \<and>
    arrives READ_LINE_TIMEOUT_S (hdr @ CRLF) (wire w) es1 \<and>
    int (length payload) = sz \<and> arrives READ_FILE_TIMEOUT_S payload es1 es2 \<and>
    silent es2 \<and>
    can_store w out_dir (out_path_of (nt w) out_dir recv_path)
    \<longrightarrow> fst (request_get path out_dir w) = Inr False \<and>
        last (out (snd (request_get path out_dir w))) = ErrFooter None) \<and>
   (request_get path out_dir w = (Inr True, w')
    \<longrightarrow> (\<exists>hdr recv_path sz bs footer.
           startswith hdr ''FILEBEGIN '' \<and> parse_header hdr = Some (recv_path, sz) \<and>
           fs w' (out_path_of (nt w) out_dir recv_path) = Some (File bs) \<and> int (length bs) = sz \<and>
           startswith footer ''FILEEND'' \<and>
           wire_bytes w = hdr @ CRLF @ bs @ footer @ CRLF @ wire_bytes w'))"
proof -
  let ?p = "out_path_of (nt w) out_dir recv_path"
  let ?w1 = "send_cmd (''#GET '' @ path) w"
  have stored: "\<exists>w6. wire w6 = es2 \<and> fs w6 = (fs w)(out_dir \<mapsto> Dir, ?p \<mapsto> File payload) \<and>
        request_get path out_dir w =
          (case read_line 50 w6 of
             (None, w7) \<Rightarrow> (Inr False, print (ErrFooter None) w7)
           | (Some footer, w7) \<Rightarrow>
               if \<not> startswith footer ''FILEEND''
               then (Inr False, print (ErrFooter (Some footer)) w7)
               else (Inr True, print OkDone w7))"
    if h: "CR \<notin> set hdr" "startswith hdr ''FILEBEGIN ''" "parse_header hdr = Some (recv_path, sz)"
      "arrives READ_LINE_TIMEOUT_S (hdr @ CRLF) (wire w) es1" "int (length payload) = sz"
      "arrives READ_FILE_TIMEOUT_S payload es1 es2" "can_store w out_dir ?p"
  proof -
    from h(4) have "arrives READ_LINE_TIMEOUT_S (hdr @ CRLF) (wire ?w1) es1" by simp
    from read_line_arrives [OF h(1) this]
    obtain c where r: "read_line READ_LINE_TIMEOUT_S ?w1 = (Some hdr, ?w1\<lparr>wire := es1, clock := c\<rparr>)"
      by blast
    from h(5) have "nat sz = length payload" by simp
    with h(6) have "pull READ_FILE_TIMEOUT_S (nat sz) (wire (?w1\<lparr>wire := es1, clock := c\<rparr>)) = (payload, es2)"
      by (simp add: arrives_def)
    from request_get_stored [OF r h(2,3,7) this]
    obtain w6 where a: "wire w6 = es2" and b: "fs w6 = (fs w)(out_dir \<mapsto> Dir, ?p \<mapsto> File payload)"
      and g: "request_get path out_dir w =
             (if sz - int (length payload) \<noteq> 0
              then (Inr False, print (ErrShort (sz - int (length payload))) w6)
              else (case read_line 50 w6 of
                      (None, w7) \<Rightarrow> (Inr False, print (ErrFooter None) w7)
                    | (Some footer, w7) \<Rightarrow>
                        if \<not> startswith footer ''FILEEND''
                        then (Inr False, print (ErrFooter (Some footer)) w7)
                        else (Inr True, print OkDone w7)))"
      by (elim exE conjE) (rule that; assumption)
    from h(5) have z: "sz - int (length payload) = 0" by simp
    from g have g': "request_get path out_dir w =
          (case read_line 50 w6 of
             (None, w7) \<Rightarrow> (Inr False, print (ErrFooter None) w7)
           | (Some footer, w7) \<Rightarrow>
               if \<not> startswith footer ''FILEEND''
               then (Inr False, print (ErrFooter (Some footer)) w7)
               else (Inr True, print OkDone w7))"
      unfolding z by simp
    show ?thesis by (intro exI [of _ w6] conjI) (fact a b g')+
  qed
  show ?thesis
  proof (intro conjI impI)
    assume a: "CR \<notin> set hdr \<and> ascii hdr \<and> startswith hdr ''FILEBEGIN '' \<and> parse_header hdr = Some (recv_path, sz) \<and>
      arrives READ_LINE_TIMEOUT_S (hdr @ CRLF) (wire w) es1 \<and>
      int (length payload) = sz \<and> arrives READ_FILE_TIMEOUT_S payload es1 es2 \<and>
      CR \<notin> set footer \<and> ascii footer \<and> arrives 50 (footer @ CRLF) es2 es3 \<and>
      can_store w out_dir ?p"
    then have "\<exists>w6. wire w6 = es2 \<and> fs w6 = (fs w)(out_dir \<mapsto> Dir, ?p \<mapsto> File payload) \<and>
        request_get path out_dir w =
          (case read_line 50 w6 of
             (None, w7) \<Rightarrow> (Inr False, print (ErrFooter None) w7)
           | (Some footer, w7) \<Rightarrow>
               if \<not> startswith footer ''FILEEND''
               then (Inr False, print (ErrFooter (Some footer)) w7)
               else (Inr True, print OkDone w7))"
      by (intro stored) simp_all
    then obtain w6 where w6: "wire w6 = es2" "fs w6 = (fs w)(out_dir \<mapsto> Dir, ?p \<mapsto> File payload)"
      and g: "request_get path out_dir w =
          (case read_line 50 w6 of
             (None, w7) \<Rightarrow> (Inr False, print (ErrFooter None) w7)
           | (Some footer, w7) \<Rightarrow>
               if \<not> startswith footer ''FILEEND''
               then (Inr False, print (ErrFooter (Some footer)) w7)
               else (Inr True, print OkDone w7))"
      by (elim exE conjE) (rule that; assumption)
    from a w6(1) have "CR \<notin> set footer" "arrives 50 (footer @ CRLF) (wire w6) es3" by simp_all
    from read_line_arrives [OF this]
    obtain c where r: "read_line 50 w6 = (Some footer, w6\<lparr>wire := es3, clock := c\<rparr>)" by blast
    have e: "request_get path out_dir w =
       (if startswith footer ''FILEEND''
        then (Inr True, print OkDone (w6\<lparr>wire := es3, clock := c\<rparr>))
        else (Inr False, print (ErrFooter (Some footer)) (w6\<lparr>wire := es3, clock := c\<rparr>)))"
      unfolding g r by (simp del: print_frame)
    show "fst (request_get path out_dir w) = Inr (startswith footer ''FILEEND'')"
      unfolding e by simp
    show "fs (snd (request_get path out_dir w)) ?p = Some (File payload)"
      unfolding e using w6(2) by simp
    show "wire (snd (request_get path out_dir w)) = es3" unfolding e by simp
  next
    assume a: "CR \<notin> set hdr \<and> ascii hdr \<and> startswith hdr ''FILEBEGIN '' \<and> parse_header hdr = Some (recv_path, sz) \<and>
      arrives READ_LINE_TIMEOUT_S (hdr @ CRLF) (wire w) es1 \<and>
      int (length payload) = sz \<and> arrives READ_FILE_TIMEOUT_S payload es1 es2 \<and>
      silent es2 \<and> can_store w out_dir ?p"
    then have "\<exists>w6. wire w6 = es2 \<and> fs w6 = (fs w)(out_dir \<mapsto> Dir, ?p \<mapsto> File payload) \<and>
        request_get path out_dir w =
          (case read_line 50 w6 of
             (None, w7) \<Rightarrow> (Inr False, print (ErrFooter None) w7)
           | (Some footer, w7) \<Rightarrow>
               if \<not> startswith footer ''FILEEND''
               then (Inr False, print (ErrFooter (Some footer)) w7)
               else (Inr True, print OkDone w7))"
      by (intro stored) simp_all
    then obtain w6 where w6: "wire w6 = es2"
      and g: "request_get path out_dir w =
          (case read_line 50 w6 of
             (None, w7) \<Rightarrow> (Inr False, print (ErrFooter None) w7)
           | (Some footer, w7) \<Rightarrow>
               if \<not> startswith footer ''FILEEND''
               then (Inr False, print (ErrFooter (Some footer)) w7)
               else (Inr True, print OkDone w7))"
      by (elim exE conjE) (rule that; assumption)
    from a w6 have "silent (wire w6)" by simp
    from read_line_silent [OF this, of 50]
    obtain v where r: "read_line 50 w6 = (None, v)" by blast
    have e: "request_get path out_dir w = (Inr False, print (ErrFooter None) v)"
      unfolding g r by simp
    show "fst (request_get path out_dir w) = Inr False" unfolding e by simp
    show "last (out (snd (request_get path out_dir w))) = ErrFooter None" unfolding e by simp
  next
    assume "request_get path out_dir w = (Inr True, w')"
    then show "\<exists>hdr recv_path sz bs footer.
           startswith hdr ''FILEBEGIN '' \<and> parse_header hdr = Some (recv_path, sz) \<and>
           fs w' (out_path_of (nt w) out_dir recv_path) = Some (File bs) \<and> int (length bs) = sz \<and>
           startswith footer ''FILEEND'' \<and>
           wire_bytes w = hdr @ CRLF @ bs @ footer @ CRLF @ wire_bytes w'"
      by (rule request_get_True)
  qed
qed

theorem request_get_success_conditions_witness:
  "fst (request_get ''/logs/a.txt'' ''out''
          (world0 [Idle, Data (''FILEBEGIN /logs/a.txt 3'' @ CRLF @ ''a''), Idle, Idle, Data ''bc'',
                   Data (''FILEEND'' @ CRLF)])) = Inr True \<and>
   fs (snd (request_get ''/logs/a.txt'' ''out''
          (world0 [Idle, Data (''FILEBEGIN /logs/a.txt 3'' @ CRLF @ ''a''), Idle, Idle, Data ''bc'',
                   Data (''FILEEND'' @ CRLF)]))) ''out/a.txt''
     = Some (File ''abc'') \<and>
   fst (request_get ''/logs/a.txt'' ''out''
          (world0 [Data (''FILEBEGIN /logs/a.txt 3'' @ CRLF), Data ''ab'', Idle,
                   Data (''c'' @ ''FILEXXX'' @ CRLF)])) = Inr False \<and>
   fs (snd (request_get ''/logs/a.txt'' ''out''
          (world0 [Data (''FILEBEGIN /logs/a.txt 3'' @ CRLF), Data ''ab'', Idle,
                   Data (''c'' @ ''FILEXXX'' @ CRLF)]))) ''out/a.txt''
     = Some (File ''abc'') \<and>
   fst (request_get ''/logs/a.txt'' ''out''
          (world0 [Data (''FILEBEGIN /logs/a.txt 3'' @ CRLF), Idle, Data ''abc''])) = Inr False \<and>
   (\<exists>hdr recv_path sz bs footer.
      startswith hdr ''FILEBEGIN '' \<and> parse_header hdr = Some (recv_path, sz) \<and>
      fs (snd (request_get ''/logs/a.txt'' ''out''
          (world0 [Idle, Data (''FILEBEGIN /logs/a.txt 3'' @ CRLF @ ''a''), Idle, Idle, Data ''bc'',
                   Data (''FILEEND'' @ CRLF)])))
        (out_path_of False ''out'' recv_path) = Some (File bs) \<and>
      int (length bs) = sz \<and> startswith footer ''FILEEND'')"
proof -
  let ?hdr = "''FILEBEGIN /logs/a.txt 3''"
  let ?W1 = "world0 [Idle, Data (?hdr @ CRLF @ ''a''), Idle, Idle, Data ''bc'',
                     Data (''FILEEND'' @ CRLF)]"
  let ?W2 = "world0 [Data (?hdr @ CRLF), Data ''ab'', Idle, Data (''c'' @ ''FILEXXX'' @ CRLF)]"
  let ?W3 = "world0 [Data (?hdr @ CRLF), Idle, Data ''abc'']"
  have p: "out_path_of False ''out'' ''/logs/a.txt'' = ''out/a.txt''" by code_simp
  have n1: "nt ?W1 = False" and n2: "nt ?W2 = False" and n3: "nt ?W3 = False"
    by (simp_all add: world0_def)
  have h1: "CR \<notin> set ?hdr \<and> ascii ?hdr \<and> startswith ?hdr ''FILEBEGIN '' \<and>
      parse_header ?hdr = Some (''/logs/a.txt'', 3) \<and>
      arrives READ_LINE_TIMEOUT_S (?hdr @ CRLF) (wire ?W1)
        [Data ''a'', Idle, Idle, Data ''bc'', Data (''FILEEND'' @ CRLF)] \<and>
      int (length ''abc'') = 3 \<and>
      arrives READ_FILE_TIMEOUT_S ''abc'' [Data ''a'', Idle, Idle, Data ''bc'', Data (''FILEEND'' @ CRLF)]
        [Data (''FILEEND'' @ CRLF)] \<and>
      CR \<notin> set ''FILEEND'' \<and> ascii ''FILEEND'' \<and>
      arrives 50 (''FILEEND'' @ CRLF) [Data (''FILEEND'' @ CRLF)] [] \<and>
      can_store ?W1 ''out'' (out_path_of (nt ?W1) ''out'' ''/logs/a.txt'')"
    by code_simp
  have h2: "CR \<notin> set ?hdr \<and> ascii ?hdr \<and> startswith ?hdr ''FILEBEGIN '' \<and>
      parse_header ?hdr = Some (''/logs/a.txt'', 3) \<and>
      arrives READ_LINE_TIMEOUT_S (?hdr @ CRLF) (wire ?W2)
        [Data ''ab'', Idle, Data (''c'' @ ''FILEXXX'' @ CRLF)] \<and>
      int (length ''abc'') = 3 \<and>
      arrives READ_FILE_TIMEOUT_S ''abc'' [Data ''ab'', Idle, Data (''c'' @ ''FILEXXX'' @ CRLF)]
        [Data (''FILEXXX'' @ CRLF)] \<and>
      CR \<notin> set ''FILEXXX'' \<and> ascii ''FILEXXX'' \<and>
      arrives 50 (''FILEXXX'' @ CRLF) [Data (''FILEXXX'' @ CRLF)] [] \<and>
      can_store ?W2 ''out'' (out_path_of (nt ?W2) ''out'' ''/logs/a.txt'')"
    by code_simp
  have h3: "CR \<notin> set ?hdr \<and> ascii ?hdr \<and> startswith ?hdr ''FILEBEGIN '' \<and>
      parse_header ?hdr = Some (''/logs/a.txt'', 3) \<and>
      arrives READ_LINE_TIMEOUT_S (?hdr @ CRLF) (wire ?W3) [Idle, Data ''abc''] \<and>
      int (length ''abc'') = 3 \<and>
      arrives READ_FILE_TIMEOUT_S ''abc'' [Idle, Data ''abc''] [] \<and>
      silent [] \<and>
      can_store ?W3 ''out'' (out_path_of (nt ?W3) ''out'' ''/logs/a.txt'')"
    by code_simp
  have f1: "startswith ''FILEEND'' ''FILEEND'' = True" by code_simp
  have f2: "startswith ''FILEXXX'' ''FILEEND'' = False" by code_simp
  note t1 = request_get_success_conditions [where hdr = ?hdr and recv_path = "''/logs/a.txt''"
      and sz = 3 and payload = "''abc''" and footer = "''FILEEND''" and w = ?W1
      and ?es1.0 = "[Data ''a'', Idle, Idle, Data ''bc'', Data (''FILEEND'' @ CRLF)]"
      and ?es2.0 = "[Data (''FILEEND'' @ CRLF)]" and ?es3.0 = "[]"
      and out_dir = "''out''" and path = "''/logs/a.txt''",
      THEN conjunct1, THEN mp, OF h1]
  note t2 = request_get_success_conditions [where hdr = ?hdr and recv_path = "''/logs/a.txt''"
      and sz = 3 and payload = "''abc''" and footer = "''FILEXXX''" and w = ?W2
      and ?es1.0 = "[Data ''ab'', Idle, Data (''c'' @ ''FILEXXX'' @ CRLF)]"
      and ?es2.0 = "[Data (''FILEXXX'' @ CRLF)]" and ?es3.0 = "[]"
      and out_dir = "''out''" and path = "''/logs/a.txt''",
      THEN conjunct1, THEN mp, OF h2]
  note t3 = request_get_success_conditions [where hdr = ?hdr and recv_path = "''/logs/a.txt''"
      and sz = 3 and payload = "''abc''" and w = ?W3
      and ?es1.0 = "[Idle, Data ''abc'']" and ?es2.0 = "[]"
      and out_dir = "''out''" and path = "''/logs/a.txt''",
      THEN conjunct2, THEN conjunct1, THEN mp, OF h3]
  from t1 have r1: "fst (request_get ''/logs/a.txt'' ''out'' ?W1) = Inr True"
    and r2: "fs (snd (request_get ''/logs/a.txt'' ''out'' ?W1)) ''out/a.txt'' = Some (File ''abc'')"
    by (simp_all only: f1 n1 p)
  from t2 have r3: "fst (request_get ''/logs/a.txt'' ''out'' ?W2) = Inr False"
    and r3': "fs (snd (request_get ''/logs/a.txt'' ''out'' ?W2)) ''out/a.txt'' = Some (File ''abc'')"
    by (simp_all only: f2 n2 p)
  from t3 have r4: "fst (request_get ''/logs/a.txt'' ''out'' ?W3) = Inr False"
    by (rule conjunct1)
  from r1 have h4: "request_get ''/logs/a.txt'' ''out'' ?W1
      = (Inr True, snd (request_get ''/logs/a.txt'' ''out'' ?W1))"
    by (metis prod.collapse)
  note t4 = request_get_success_conditions [where w = ?W1 and out_dir = "''out''"
      and path = "''/logs/a.txt''" and w' = "snd (request_get ''/logs/a.txt'' ''out'' ?W1)",
      THEN conjunct2, THEN conjunct2, THEN mp, OF h4]
  from t4 have r5: "\<exists>hdr recv_path sz bs footer.
      startswith hdr ''FILEBEGIN '' \<and> parse_header hdr = Some (recv_path, sz) \<and>
      fs (snd (request_get ''/logs/a.txt'' ''out'' ?W1))
        (out_path_of False ''out'' recv_path) = Some (File bs) \<and>
      int (length bs) = sz \<and> startswith footer ''FILEEND''"
    unfolding n1 by blast
  from r1 r2 r3 r3' r4 r5 show ?thesis by (intro conjI)
qed

section \<open>Short reads\<close>

text \<open>
  C2 as stated: whenever the header announces more bytes than arrive before the deadline,
  \<open>request_get\<close> reports failure and leaves the received bytes in the file. The file is
  opened after the header has been parsed, and the source does not look at the name it
  opens. For the announced path \<open>/logs/..\<close> the name is \<open>..\<close>, the path to open is
  a directory, and \<open>open\<close> raises \<open>IsADirectoryError\<close>: \<open>request_get\<close> returns neither
  success nor failure, and none of the three bytes that the device sent is stored.
\<close>

theorem request_get_short_read_raises:
  "parse_header ''FILEBEGIN /logs/.. 4'' = Some (''/logs/..'', 4) \<and>
   out_path_of False ''out'' ''/logs/..'' = ''out/..'' \<and>
   fst (request_get ''/logs/..'' ''out'' (get_world (''FILEBEGIN /logs/.. 4'' @ CRLF @ ''abc'')))
     = Inl IsADirectoryError \<and>
   fs (snd (request_get ''/logs/..'' ''out''
              (get_world (''FILEBEGIN /logs/.. 4'' @ CRLF @ ''abc'')))) ''out/..'' = None \<and>
   out (snd (request_get ''/logs/..'' ''out''
              (get_world (''FILEBEGIN /logs/.. 4'' @ CRLF @ ''abc''))))
     = [InfoReceiving ''/logs/..'' 4 ''out/..'']"
  by code_simp

text \<open>
  C2, amended. The output directory can be made and the file named by the last component
  of the announced path can be opened. The header line arrives within the line timeout and
  announces \<open>sz\<close> bytes; within the file timeout only the bytes \<open>bs\<close> arrive, fewer than
  \<open>sz\<close>, in whatever pieces and with whatever pauses. Then \<open>request_get\<close> returns
  \<open>False\<close>, reports how many bytes are missing, and the file is left holding exactly
  \<open>bs\<close>; what the device sends later stays on the wire.
\<close>

theorem request_get_short_read:
  assumes "CR \<notin> set hdr" and "ascii hdr" and "startswith hdr ''FILEBEGIN ''"
    and "parse_header hdr = Some (recv_path, sz)"
    and "arrives READ_LINE_TIMEOUT_S (hdr @ CRLF) (wire w) es1"
    and "pull READ_FILE_TIMEOUT_S (nat sz) es1 = (bs, es2)"
    and "int (length bs) < sz"
    and "can_store w out_dir (out_path_of (nt w) out_dir recv_path)"
  shows "fst (request_get path out_dir w) = Inr False \<and>
         fs (snd (request_get path out_dir w)) (out_path_of (nt w) out_dir recv_path) = Some (File bs) \<and>
         last (out (snd (request_get path out_dir w))) = ErrShort (sz - int (length bs)) \<and>
         wire (snd (request_get path out_dir w)) = es2"
proof -
  let ?p = "out_path_of (nt w) out_dir recv_path"
  let ?w1 = "send_cmd (''#GET '' @ path) w"
  from assms(5) have "arrives READ_LINE_TIMEOUT_S (hdr @ CRLF) (wire ?w1) es1" by simp
  from read_line_arrives [OF assms(1) this]
  obtain c where r: "read_line READ_LINE_TIMEOUT_S ?w1 = (Some hdr, ?w1\<lparr>wire := es1, clock := c\<rparr>)"
    by blast
  from assms(6)
  have "pull READ_FILE_TIMEOUT_S (nat sz) (wire (?w1\<lparr>wire := es1, clock := c\<rparr>)) = (bs, es2)"
    by simp
  from request_get_stored [OF r assms(3,4,8) this]
  obtain w6 where a: "wire w6 = es2" and b: "fs w6 = (fs w)(out_dir \<mapsto> Dir, ?p \<mapsto> File bs)"
    and g: "request_get path out_dir w =
             (if sz - int (length bs) \<noteq> 0
              then (Inr False, print (ErrShort (sz - int (length bs))) w6)
              else (case read_line 50 w6 of
                      (None, w7) \<Rightarrow> (Inr False, print (ErrFooter None) w7)
                    | (Some footer, w7) \<Rightarrow>
                        if \<not> startswith footer ''FILEEND''
                        then (Inr False, print (ErrFooter (Some footer)) w7)
                        else (Inr True, print OkDone w7)))"
    by (elim exE conjE) (rule that; assumption)
  from assms(7) have "sz - int (length bs) \<noteq> 0" by simp
  with g have e: "request_get path out_dir w = (Inr False, print (ErrShort (sz - int (length bs))) w6)"
    by simp
  show ?thesis unfolding e using a b by simp
qed

theorem request_get_short_read_witness:
  "fst (request_get ''/logs/a.txt'' ''out''
          (world0 [Idle, Data (''FILEBEGIN /logs/a.txt 4'' @ CRLF @ ''ab''), Idle, Data ''c'']))
     = Inr False \<and>
   fs (snd (request_get ''/logs/a.txt'' ''out''
          (world0 [Idle, Data (''FILEBEGIN /logs/a.txt 4'' @ CRLF @ ''ab''), Idle, Data ''c''])))
      ''out/a.txt'' = Some (File ''abc'') \<and>
   last (out (snd (request_get ''/logs/a.txt'' ''out''
          (world0 [Idle, Data (''FILEBEGIN /logs/a.txt 4'' @ CRLF @ ''ab''), Idle, Data ''c'']))))
     = ErrShort 1"
proof -
  let ?hdr = "''FILEBEGIN /logs/a.txt 4''"
  let ?W = "world0 [Idle, Data (?hdr @ CRLF @ ''ab''), Idle, Data ''c'']"
  have p: "out_path_of (nt ?W) ''out'' ''/logs/a.txt'' = ''out/a.txt''" by code_simp
  have h1: "CR \<notin> set ?hdr" by code_simp
  have h2: "ascii ?hdr" by code_simp
  have h3: "startswith ?hdr ''FILEBEGIN ''" by code_simp
  have h4: "parse_header ?hdr = Some (''/logs/a.txt'', 4)" by code_simp
  have h5: "arrives READ_LINE_TIMEOUT_S (?hdr @ CRLF) (wire ?W) [Data ''ab'', Idle, Data ''c'']"
    by code_simp
  have h6: "pull READ_FILE_TIMEOUT_S (nat 4) [Data ''ab'', Idle, Data ''c''] = (''abc'', [])"
    by code_simp
  have h7: "int (length ''abc'') < 4" by simp
  have h8: "can_store ?W ''out'' (out_path_of (nt ?W) ''out'' ''/logs/a.txt'')" by code_simp
  from request_get_short_read [OF h1 h2 h3 h4 h5 h6 h7 h8, of "''/logs/a.txt''"]
  show ?thesis unfolding p by simp
qed

section \<open>The file is truncated before the payload\<close>

definition old_world :: "event list \<Rightarrow> world" where
  "old_world es = (world0 es)\<lparr>fs := [''out'' \<mapsto> Dir, ''out/a.txt'' \<mapsto> File ''previous'']\<rparr>"

text \<open>
  C10 as stated: whenever \<open>request_get\<close> has parsed a header, it creates or truncates
  the file named by the last component of the announced path before it receives the
  payload. The source opens that file without looking at its name. For the announced path
  \<open>.\<close> the name is \<open>.\<close>, the path to open is a directory, and \<open>open\<close> raises
  \<open>IsADirectoryError\<close>: the header was parsed, and no file has been created or truncated.
\<close>

theorem request_get_no_file_created:
  "parse_header ''FILEBEGIN . 5'' = Some (''.'', 5) \<and>
   out_path_of False ''out'' ''.'' = ''out/.'' \<and>
   fst (request_get ''.'' ''out'' (old_world [Data (''FILEBEGIN . 5'' @ CRLF @ ''ab'')]))
     = Inl IsADirectoryError \<and>
   fs (snd (request_get ''.'' ''out'' (old_world [Data (''FILEBEGIN . 5'' @ CRLF @ ''ab'')])))
      ''out/.'' = None \<and>
   fs (snd (request_get ''.'' ''out'' (old_world [Data (''FILEBEGIN . 5'' @ CRLF @ ''ab'')])))
      ''out/a.txt'' = Some (File ''previous'')"
  by code_simp

text \<open>
  C10, amended. A call of \<open>request_get\<close> has read a header line that parses, and it
  returns: the output directory could be made and the file could be opened. Let \<open>bs\<close>
  be the bytes that the device delivers after the header line within the file timeout, up
  to the announced number. When the call returns, the file at the output path holds exactly
  \<open>bs\<close>, whatever that path held before: the file was opened empty before the first
  byte was received, and every byte received was written. If the announced size is not
  positive, no byte is received and the file is empty. If fewer bytes than announced were
  received, the call returns \<open>False\<close> and reports the number of missing bytes; if all
  were received and the call still returns \<open>False\<close>, it reports the footer.
\<close>

theorem request_get_truncates_first:
  assumes "read_line READ_LINE_TIMEOUT_S (send_cmd (''#GET '' @ path) w) = (Some hdr, w2)"
    and "ascii hdr" and "startswith hdr ''FILEBEGIN ''"
    and "parse_header hdr = Some (recv_path, sz)"
    and "request_get path out_dir w = (Inr b, w')"
    and "pull READ_FILE_TIMEOUT_S (nat sz) (wire w2) = (bs, es2)"
  shows "can_store w out_dir (out_path_of (nt w) out_dir recv_path) \<and>
         fs w' (out_path_of (nt w) out_dir recv_path) = Some (File bs) \<and>
         (sz \<le> 0 \<longrightarrow> bs = []) \<and>
         (int (length bs) \<noteq> sz \<longrightarrow> \<not> b \<and> last (out w') = ErrShort (sz - int (length bs))) \<and>
         (int (length bs) = sz \<and> \<not> b \<longrightarrow> (\<exists>f. last (out w') = ErrFooter f))"
proof -
  let ?p = "out_path_of (nt w) out_dir recv_path"
  from request_get_returns_can_store [OF assms(1,3,4,5)] have cs: "can_store w out_dir ?p" .
  from request_get_stored [OF assms(1,3,4) cs assms(6)]
  obtain w6 where f6: "fs w6 = (fs w)(out_dir \<mapsto> Dir, ?p \<mapsto> File bs)"
    and g: "request_get path out_dir w =
             (if sz - int (length bs) \<noteq> 0
              then (Inr False, print (ErrShort (sz - int (length bs))) w6)
              else (case read_line 50 w6 of
                      (None, w7) \<Rightarrow> (Inr False, print (ErrFooter None) w7)
                    | (Some footer, w7) \<Rightarrow>
                        if \<not> startswith footer ''FILEEND''
                        then (Inr False, print (ErrFooter (Some footer)) w7)
                        else (Inr True, print OkDone w7)))"
    by (elim exE conjE) (rule that; assumption)
  have z: "sz \<le> 0 \<longrightarrow> bs = []"
  proof
    assume "sz \<le> 0"
    then have "nat sz = 0" by simp
    with assms(6) show "bs = []" by simp
  qed
  show ?thesis
  proof (cases "sz - int (length bs) = 0")
    case False
    with g assms(5) have "b = False" "w' = print (ErrShort (sz - int (length bs))) w6"
      by simp_all
    with f6 False z cs show ?thesis by simp
  next
    case True
    obtain y w7 where r2: "read_line 50 w6 = (y, w7)" by (cases "read_line 50 w6")
    from read_line_frame [OF r2] f6 have f7: "fs w7 = (fs w)(out_dir \<mapsto> Dir, ?p \<mapsto> File bs)"
      by simp
    from g True r2 assms(5)
    have "(\<not> b \<longrightarrow> (\<exists>f. w' = print (ErrFooter f) w7)) \<and> (b \<longrightarrow> w' = print OkDone w7)"
      by (cases y) (auto split: if_splits)
    then have "fs w' = fs w7" and "\<not> b \<longrightarrow> (\<exists>f. last (out w') = ErrFooter f)"
      by (cases b; auto)+
    with f7 True z cs show ?thesis by simp
  qed
qed

theorem request_get_truncates_first_witness:
  "fs (old_world [Data (''FILEBEGIN /logs/a.txt 5'' @ CRLF @ ''a''), Idle, Data ''b''])
      ''out/a.txt'' = Some (File ''previous'') \<and>
   fst (request_get ''/logs/a.txt'' ''out''
          (old_world [Data (''FILEBEGIN /logs/a.txt 5'' @ CRLF @ ''a''), Idle, Data ''b'']))
     = Inr False \<and>
   fs (snd (request_get ''/logs/a.txt'' ''out''
          (old_world [Data (''FILEBEGIN /logs/a.txt 5'' @ CRLF @ ''a''), Idle, Data ''b''])))
      ''out/a.txt'' = Some (File ''ab'') \<and>
   last (out (snd (request_get ''/logs/a.txt'' ''out''
          (old_world [Data (''FILEBEGIN /logs/a.txt 5'' @ CRLF @ ''a''), Idle, Data ''b'']))))
     = ErrShort 3"
proof -
  let ?hdr = "''FILEBEGIN /logs/a.txt 5''"
  let ?W = "old_world [Data (?hdr @ CRLF @ ''a''), Idle, Data ''b'']"
  let ?R = "read_line READ_LINE_TIMEOUT_S (send_cmd (''#GET '' @ ''/logs/a.txt'') ?W)"
  let ?G = "request_get ''/logs/a.txt'' ''out'' ?W"
  have p: "out_path_of (nt ?W) ''out'' ''/logs/a.txt'' = ''out/a.txt''" by code_simp
  have a1: "fst ?R = Some ?hdr" by code_simp
  have h1: "?R = (Some ?hdr, snd ?R)" using a1 by (metis prod.collapse)
  have h2: "ascii ?hdr" by code_simp
  have h3: "startswith ?hdr ''FILEBEGIN ''" by code_simp
  have h4: "parse_header ?hdr = Some (''/logs/a.txt'', 5)" by code_simp
  have r1: "fst ?G = Inr False" by code_simp
  then have h5: "?G = (Inr False, snd ?G)" by (metis prod.collapse)
  have h6: "pull READ_FILE_TIMEOUT_S (nat 5) (wire (snd ?R)) = (''ab'', [])" by code_simp
  have r0: "fs ?W ''out/a.txt'' = Some (File ''previous'')" by code_simp
  have n: "int (length ''ab'') \<noteq> 5" by simp
  note t = request_get_truncates_first [OF h1 h2 h3 h4 h5 h6]
  from t have r2: "fs (snd ?G) ''out/a.txt'' = Some (File ''ab'')"
    unfolding p by simp
  from t n have r3: "last (out (snd ?G)) = ErrShort 3" by simp
  from r0 r1 r2 r3 show ?thesis by (intro conjI)
qed

section \<open>The same file twice\<close>

text \<open>
  \<open>answers hdr payload footer es es'\<close>: read from the wire \<open>es\<close>, the device's answer to
  one request arrives in time: the header line within the line timeout, then the payload
  within the file timeout, then the footer line within its timeout, each in whatever pieces
  and with whatever pauses; \<open>es'\<close> is the wire behind the footer line.
\<close>

definition answers :: "string \<Rightarrow> string \<Rightarrow> string \<Rightarrow> event list \<Rightarrow> event list \<Rightarrow> bool" where
  "answers hdr payload footer es es' =
     (case pull READ_LINE_TIMEOUT_S (length (hdr @ CRLF)) es of
        (h, es1) \<Rightarrow>
          h = hdr @ CRLF \<and>
          (case pull READ_FILE_TIMEOUT_S (length payload) es1 of
             (b, es2) \<Rightarrow> b = payload \<and> arrives 50 (footer @ CRLF) es2 es'))"

lemma answers_arrive:
  assumes "answers hdr payload footer es es'"
  obtains es1 es2 where "arrives READ_LINE_TIMEOUT_S (hdr @ CRLF) es es1"
    and "arrives READ_FILE_TIMEOUT_S payload es1 es2" and "arrives 50 (footer @ CRLF) es2 es'"
proof -
  obtain h es1 where p1: "pull READ_LINE_TIMEOUT_S (length (hdr @ CRLF)) es = (h, es1)"
    by (cases "pull READ_LINE_TIMEOUT_S (length (hdr @ CRLF)) es")
  obtain b es2 where p2: "pull READ_FILE_TIMEOUT_S (length payload) es1 = (b, es2)"
    by (cases "pull READ_FILE_TIMEOUT_S (length payload) es1")
  from assms p1 p2 have "h = hdr @ CRLF" "b = payload" "arrives 50 (footer @ CRLF) es2 es'"
    by (simp_all add: answers_def)
  with p1 p2 that [of es1 es2] show ?thesis by (simp add: arrives_def)
qed

text \<open>
  C9 as stated: two calls in a row for the same path, both answered with the same valid
  header, payload and footer, are two successful downloads. The source opens the file
  named by the last component of the announced path without looking at it. For the
  announced path \<open>/\<close> that component is empty and \<open>open\<close> raises
  \<open>IsADirectoryError\<close> in the first call: there is no successful download, and no file.
\<close>

theorem request_get_twice_raises:
  "parse_header ''FILEBEGIN / 3'' = Some (''/'', 3) \<and>
   answers ''FILEBEGIN / 3'' ''abc'' ''FILEEND''
     [Data (''FILEBEGIN / 3'' @ CRLF @ ''abc'' @ ''FILEEND'' @ CRLF),
      Data (''FILEBEGIN / 3'' @ CRLF @ ''abc'' @ ''FILEEND'' @ CRLF)]
     [Data (''FILEBEGIN / 3'' @ CRLF @ ''abc'' @ ''FILEEND'' @ CRLF)] \<and>
   answers ''FILEBEGIN / 3'' ''abc'' ''FILEEND''
     [Data (''FILEBEGIN / 3'' @ CRLF @ ''abc'' @ ''FILEEND'' @ CRLF)] [] \<and>
   fst (request_get ''/'' ''out''
          (world0 [Data (''FILEBEGIN / 3'' @ CRLF @ ''abc'' @ ''FILEEND'' @ CRLF),
                   Data (''FILEBEGIN / 3'' @ CRLF @ ''abc'' @ ''FILEEND'' @ CRLF)]))
     = Inl IsADirectoryError \<and>
   fs (snd (request_get ''/'' ''out''
          (world0 [Data (''FILEBEGIN / 3'' @ CRLF @ ''abc'' @ ''FILEEND'' @ CRLF),
                   Data (''FILEBEGIN / 3'' @ CRLF @ ''abc'' @ ''FILEEND'' @ CRLF)])))
      (out_path_of False ''out'' ''/'') = None"
  by code_simp

text \<open>
  C9, amended. The output directory can be made and the file named by the last component
  of the announced path can be opened. The same path is requested twice in a row, and the
  device answers each request in time with the same header, payload and footer, the footer
  starting with \<open>FILEEND\<close>. Then both calls of \<open>request_get\<close> return \<open>True\<close>, and after
  each of them the file holds the payload.
\<close>

theorem request_get_twice:
  assumes "CR \<notin> set hdr" and "ascii hdr" and "startswith hdr ''FILEBEGIN ''"
    and "parse_header hdr = Some (recv_path, sz)"
    and "int (length payload) = sz"
    and "CR \<notin> set footer" and "ascii footer" and "startswith footer ''FILEEND''"
    and "answers hdr payload footer (wire w) es3"
    and "answers hdr payload footer es3 es6"
    and "can_store w out_dir (out_path_of (nt w) out_dir recv_path)"
  shows "fst (request_get path out_dir w) = Inr True \<and>
         fs (snd (request_get path out_dir w)) (out_path_of (nt w) out_dir recv_path) = Some (File payload) \<and>
         fst (request_get path out_dir (snd (request_get path out_dir w))) = Inr True \<and>
         fs (snd (request_get path out_dir (snd (request_get path out_dir w))))
            (out_path_of (nt w) out_dir recv_path) = Some (File payload)"
proof -
  let ?p = "out_path_of (nt w) out_dir recv_path"
  from assms(9) obtain es1 es2 where a1: "arrives READ_LINE_TIMEOUT_S (hdr @ CRLF) (wire w) es1"
    "arrives READ_FILE_TIMEOUT_S payload es1 es2" "arrives 50 (footer @ CRLF) es2 es3"
    by (rule answers_arrive)
  from assms(10) obtain es4 es5 where a2: "arrives READ_LINE_TIMEOUT_S (hdr @ CRLF) es3 es4"
    "arrives READ_FILE_TIMEOUT_S payload es4 es5" "arrives 50 (footer @ CRLF) es5 es6"
    by (rule answers_arrive)
  from request_get_complete [OF assms(1,3,4) a1(1) assms(5) a1(2) assms(6) a1(3) assms(11), of path]
    assms(8)
  obtain v where e1: "request_get path out_dir w = (Inr True, v)" and wv: "wire v = es3"
    and nv: "nt v = nt w" and fv: "fs v = (fs w)(out_dir \<mapsto> Dir, ?p \<mapsto> File payload)"
    by auto
  from can_store_again [OF assms(11) fv nv] nv
  have cs: "can_store v out_dir (out_path_of (nt v) out_dir recv_path)" by simp
  from a2(1) wv have a2': "arrives READ_LINE_TIMEOUT_S (hdr @ CRLF) (wire v) es4" by simp
  from request_get_complete [OF assms(1,3,4) a2' assms(5) a2(2) assms(6) a2(3) cs, of path]
    assms(8) nv
  obtain u where e2: "request_get path out_dir v = (Inr True, u)"
    and fu: "fs u = (fs v)(out_dir \<mapsto> Dir, ?p \<mapsto> File payload)"
    by auto
  show ?thesis unfolding e1 snd_conv fst_conv e2 using fv fu by simp
qed

theorem request_get_twice_witness:
  "fst (request_get ''/logs/a.txt'' ''out''
     (world0 [Data (''FILEBEGIN /logs/a.txt 3'' @ CRLF), Idle, Data ''ab'', Idle,
              Data (''c'' @ ''FILEEND'' @ CRLF), Idle, Idle,
              Data (''FILEBEGIN /logs/a.txt 3'' @ CRLF @ ''abc'' @ ''FILEEND'' @ CRLF)])) = Inr True \<and>
   fs (snd (request_get ''/logs/a.txt'' ''out''
     (world0 [Data (''FILEBEGIN /logs/a.txt 3'' @ CRLF), Idle, Data ''ab'', Idle,
              Data (''c'' @ ''FILEEND'' @ CRLF), Idle, Idle,
              Data (''FILEBEGIN /logs/a.txt 3'' @ CRLF @ ''abc'' @ ''FILEEND'' @ CRLF)])))
      ''out/a.txt'' = Some (File ''abc'') \<and>
   fst (request_get ''/logs/a.txt'' ''out'' (snd (request_get ''/logs/a.txt'' ''out''
     (world0 [Data (''FILEBEGIN /logs/a.txt 3'' @ CRLF), Idle, Data ''ab'', Idle,
              Data (''c'' @ ''FILEEND'' @ CRLF), Idle, Idle,
              Data (''FILEBEGIN /logs/a.txt 3'' @ CRLF @ ''abc'' @ ''FILEEND'' @ CRLF)])))) = Inr True \<and>
   fs (snd (request_get ''/logs/a.txt'' ''out'' (snd (request_get ''/logs/a.txt'' ''out''
     (world0 [Data (''FILEBEGIN /logs/a.txt 3'' @ CRLF), Idle, Data ''ab'', Idle,
              Data (''c'' @ ''FILEEND'' @ CRLF), Idle, Idle,
              Data (''FILEBEGIN /logs/a.txt 3'' @ CRLF @ ''abc'' @ ''FILEEND'' @ CRLF)])))))
      ''out/a.txt'' = Some (File ''abc'')"
proof -
  let ?hdr = "''FILEBEGIN /logs/a.txt 3''"
  let ?es3 = "[Idle, Idle, Data (?hdr @ CRLF @ ''abc'' @ ''FILEEND'' @ CRLF)]"
  let ?W = "world0 [Data (?hdr @ CRLF), Idle, Data ''ab'', Idle,
              Data (''c'' @ ''FILEEND'' @ CRLF), Idle, Idle,
              Data (?hdr @ CRLF @ ''abc'' @ ''FILEEND'' @ CRLF)]"
  have p: "out_path_of (nt ?W) ''out'' ''/logs/a.txt'' = ''out/a.txt''" by code_simp
  have h1: "CR \<notin> set ?hdr" by code_simp
  have h2: "ascii ?hdr" by code_simp
  have h3: "startswith ?hdr ''FILEBEGIN ''" by code_simp
  have h4: "parse_header ?hdr = Some (''/logs/a.txt'', 3)" by code_simp
  have h5: "int (length ''abc'') = 3" by simp
  have h6: "CR \<notin> set ''FILEEND''" by code_simp
  have h7: "ascii ''FILEEND''" by code_simp
  have h8: "startswith ''FILEEND'' ''FILEEND''" by code_simp
  have h9: "answers ?hdr ''abc'' ''FILEEND'' (wire ?W) ?es3" by code_simp
  have h10: "answers ?hdr ''abc'' ''FILEEND'' ?es3 []" by code_simp
  have h11: "can_store ?W ''out'' (out_path_of (nt ?W) ''out'' ''/logs/a.txt'')" by code_simp
  from request_get_twice [OF h1 h2 h3 h4 h5 h6 h7 h8 h9 h10 h11, of "''/logs/a.txt''"]
  show ?thesis unfolding p .
qed

section \<open>Where \<open>request_get\<close> writes\<close>

definition windows_world :: "event list \<Rightarrow> world" where
  "windows_world es = (world0 es)\<lparr>nt := True\<rparr>"

text \<open>
  C5. The name of the output file is the last component of the announced path, so the
  file is directly inside the output directory and never outside it. The source computes
  the path as \<open>os.path.join(out_dir, os.path.basename(recv_path.strip()))\<close>. On Windows
  a last component may begin with a drive: for the announced path \<open>x/D:evil.txt\<close> the
  last component is \<open>D:evil.txt\<close>, and \<open>join\<close> drops the output directory in front
  of a component that has a drive of its own. The download succeeds and the payload is
  written to \<open>D:evil.txt\<close>, a path on drive \<open>D:\<close>, while nothing is written inside
  the output directory.
\<close>

theorem request_get_writes_outside_out_dir:
  "parse_header ''FILEBEGIN x/D:evil.txt 3'' = Some (''x/D:evil.txt'', 3) \<and>
   os_basename True (strip ''x/D:evil.txt'') = ''D:evil.txt'' \<and>
   os_join True ''out'' ''D:evil.txt'' = ''D:evil.txt'' \<and>
   fst (request_get ''x/D:evil.txt'' ''out''
          (windows_world [Data (''FILEBEGIN x/D:evil.txt 3'' @ CRLF @ ''abc'' @ ''FILEEND'' @ CRLF)]))
     = Inr True \<and>
   out (snd (request_get ''x/D:evil.txt'' ''out''
          (windows_world [Data (''FILEBEGIN x/D:evil.txt 3'' @ CRLF @ ''abc'' @ ''FILEEND'' @ CRLF)])))
     = [InfoReceiving ''x/D:evil.txt'' 3 ''D:evil.txt'', OkDone] \<and>
   fs (snd (request_get ''x/D:evil.txt'' ''out''
          (windows_world [Data (''FILEBEGIN x/D:evil.txt 3'' @ CRLF @ ''abc'' @ ''FILEEND'' @ CRLF)])))
      ''D:evil.txt'' = Some (File ''abc'') \<and>
   fs (snd (request_get ''x/D:evil.txt'' ''out''
          (windows_world [Data (''FILEBEGIN x/D:evil.txt 3'' @ CRLF @ ''abc'' @ ''FILEEND'' @ CRLF)])))
      (''out'' @ [BSL] @ ''D:evil.txt'') = None \<and>
   fs (snd (request_get ''x/D:evil.txt'' ''out''
          (windows_world [Data (''FILEBEGIN x/D:evil.txt 3'' @ CRLF @ ''abc'' @ ''FILEEND'' @ CRLF)])))
      ''out/D:evil.txt'' = None"
  by code_simp

text \<open>With \<open>posixpath\<close> the file is directly inside the output directory.
  \<open>directly_inside d q\<close>: the path \<open>q\<close> is the directory \<open>d\<close>, a separator and one
  file name; the name is the last component of \<open>q\<close>, it has no separator in it and is
  neither \<open>.\<close> nor \<open>..\<close>.\<close>

definition directly_inside :: "string \<Rightarrow> string \<Rightarrow> bool" where
  "directly_inside d q =
     (let n = basename q in
      n \<noteq> [] \<and> n \<noteq> ''.'' \<and> n \<noteq> ''..'' \<and>
      (q = d @ ''/'' @ n \<or> (endswith d ''/'' \<and> q = d @ n)))"

lemma basename_no_slash: "CHR ''/'' \<notin> set (basename p)"
  by (auto simp: basename_def dest: set_takeWhileD)

lemma basename_append: "CHR ''/'' \<notin> set n \<Longrightarrow> basename (a @ ''/'' @ n) = n"
  by (simp add: basename_def takeWhile_neq_append)

lemma endswith_slash: "endswith d ''/'' \<Longrightarrow> \<exists>a. d = a @ ''/''"
proof -
  assume "endswith d ''/''"
  then have "drop (length d - 1) d = ''/''" by (simp add: endswith_def)
  with append_take_drop_id [of "length d - 1" d] show ?thesis by metis
qed

lemma path_join_basename:
  assumes "d \<noteq> []"
  shows "path_join d (basename x) = (if endswith d ''/'' then d @ basename x else d @ ''/'' @ basename x)"
    and "basename (path_join d (basename x)) = basename x"
proof -
  have ns: "CHR ''/'' \<notin> set (basename x)" by (rule basename_no_slash)
  then have "\<not> startswith (basename x) ''/''"
    by (auto simp: startswith_iff)
  with assms show j: "path_join d (basename x) =
      (if endswith d ''/'' then d @ basename x else d @ ''/'' @ basename x)"
    by (simp add: path_join_def)
  show "basename (path_join d (basename x)) = basename x"
  proof (cases "endswith d ''/''")
    case False
    with j basename_append [OF ns, of d] show ?thesis by simp
  next
    case True
    from endswith_slash [OF True] obtain a where "d = a @ ''/''" ..
    with j True basename_append [OF ns, of a] show ?thesis by simp
  qed
qed

lemma can_store_directly_inside:
  assumes "can_store w d (out_path_of (nt w) d recv_path)" and "\<not> nt w"
  shows "directly_inside d (out_path_of (nt w) d recv_path)"
proof -
  let ?q = "out_path_of (nt w) d recv_path"
  from assms(2) have q: "?q = path_join d (basename (strip recv_path))"
    by (simp add: out_path_of_def os_join_def os_basename_def)
  from assms have d: "d \<noteq> []" and b: "basename ?q \<noteq> []" "basename ?q \<noteq> ''.''" "basename ?q \<noteq> ''..''"
    by (simp_all add: can_store_iff os_basename_def)
  note j = path_join_basename [OF d, of "strip recv_path"]
  from j(2) have e: "basename ?q = basename (strip recv_path)"
    unfolding q .
  from j(1) have "?q = d @ ''/'' @ basename (strip recv_path) \<or>
      (endswith d ''/'' \<and> ?q = d @ basename (strip recv_path))"
    unfolding q by (simp split: if_splits)
  with b e show ?thesis by (simp add: directly_inside_def Let_def)
qed

text \<open>What a call of \<open>request_get\<close> can have done to the file system: nothing; or it has
  made the output directory; or it has made the directory and written one file, at the
  path computed from the header.\<close>

lemma request_get_fs:
  assumes "request_get path out_dir w = (res, w')"
  shows "fs w' = fs w \<or>
         (\<exists>hdr recv_path sz.
            startswith hdr ''FILEBEGIN '' \<and> parse_header hdr = Some (recv_path, sz) \<and>
            (fs w' = (fs w)(out_dir \<mapsto> Dir) \<or>
             (\<exists>bs. fs w' = (fs w)(out_dir \<mapsto> Dir, out_path_of (nt w) out_dir recv_path \<mapsto> File bs) \<and>
                   can_store w out_dir (out_path_of (nt w) out_dir recv_path))))"
proof -
  let ?w1 = "send_cmd (''#GET '' @ path) w"
  obtain x w2 where r: "read_line READ_LINE_TIMEOUT_S ?w1 = (x, w2)"
    by (cases "read_line READ_LINE_TIMEOUT_S ?w1")
  from read_line_frame [OF r] have f2: "fs w2 = fs w" and n2: "nt w2 = nt w" by simp_all
  show ?thesis
  proof (cases x)
    case None
    from request_get_no_header [OF r [unfolded None], of out_dir] assms f2 show ?thesis by auto
  next
    case (Some hdr)
    note r' = r [unfolded Some]
    show ?thesis
    proof (cases "startswith hdr ''ERR:''")
      case True
      from request_get_err_header [OF r' True, of out_dir] assms f2 show ?thesis by auto
    next
      case nE: False
      show ?thesis
      proof (cases "startswith hdr ''FILEBEGIN ''")
        case False
        from request_get_unexpected_header [OF r' nE False, of out_dir] assms f2
        show ?thesis by auto
      next
        case sw: True
        show ?thesis
        proof (cases "parse_header hdr")
          case None
          from request_get_unparsed_header [OF r' sw None, of out_dir] assms f2
          show ?thesis by auto
        next
          case (Some a)
          obtain recv_path sz where "a = (recv_path, sz)" by (cases a)
          with Some have ph: "parse_header hdr = Some (recv_path, sz)" by simp
          let ?p = "out_path_of (nt w) out_dir recv_path"
          note g = request_get_parsed [OF r' sw ph, of out_dir]
          have "fs w' = fs w \<or> fs w' = (fs w)(out_dir \<mapsto> Dir) \<or>
             (\<exists>bs. fs w' = (fs w)(out_dir \<mapsto> Dir, ?p \<mapsto> File bs) \<and> can_store w out_dir ?p)"
          proof (cases "makedirs out_dir w2")
            case (Inl e)
            with g assms f2 show ?thesis by simp
          next
            case (Inr w3)
            from makedirs_Inr [OF Inr] f2 have f3: "fs w3 = (fs w)(out_dir \<mapsto> Dir)" by simp
            let ?w4 = "print (InfoReceiving recv_path sz ?p) w3"
            show ?thesis
            proof (cases "open_wb ?p ?w4")
              case (Inl e)
              with g Inr assms f3 show ?thesis by simp
            next
              case o: (Inr w5)
              from open_wb_Inr [OF o] f3 have f5: "fs w5 = (fs w)(out_dir \<mapsto> Dir, ?p \<mapsto> File [])"
                by simp
              have cs: "can_store w out_dir ?p"
                using n2 makedirs_Inr [OF Inr]
                by (intro stores_can_store [OF Inr o f2]) simp_all
              obtain rem w6 where l: "recv_loop ?p (clock ?w4 + READ_FILE_TIMEOUT_S) sz w5 = (rem, w6)"
                by (cases "recv_loop ?p (clock ?w4 + READ_FILE_TIMEOUT_S) sz w5")
              from f5 have "fs w5 ?p = Some (File [])" by simp
              from recv_loop_inv [OF l this] f5
              obtain bs where f6: "fs w6 = (fs w)(out_dir \<mapsto> Dir, ?p \<mapsto> File bs)" by auto
              obtain y w7 where r2: "read_line 50 w6 = (y, w7)" by (cases "read_line 50 w6")
              from read_line_frame [OF r2] f6 have f7: "fs w7 = (fs w)(out_dir \<mapsto> Dir, ?p \<mapsto> File bs)"
                by simp
              from assms have "fs w' = fs w6 \<or> fs w' = fs w7"
                unfolding g Inr o l r2 sum.case prod.case
                by (cases y) (auto split: if_splits)
              with f6 f7 have "fs w' = (fs w)(out_dir \<mapsto> Dir, ?p \<mapsto> File bs)" by auto
              with cs show ?thesis by blast
            qed
          qed
          with sw ph show ?thesis by blast
        qed
      qed
    qed
  qed
qed

lemma request_get_posix_inside:
  assumes "request_get path out_dir w = (res, w')" and "fs w' q \<noteq> fs w q" and "\<not> nt w"
  shows "(q = out_dir \<and> fs w' q = Some Dir) \<or>
         (directly_inside out_dir q \<and>
          (\<exists>hdr recv_path sz bs.
             parse_header hdr = Some (recv_path, sz) \<and>
             q = path_join out_dir (basename (strip recv_path)) \<and> fs w' q = Some (File bs)))"
proof -
  from request_get_fs [OF assms(1)] assms(2)
  obtain hdr recv_path sz where ph: "parse_header hdr = Some (recv_path, sz)"
    and c: "fs w' = (fs w)(out_dir \<mapsto> Dir) \<or>
             (\<exists>bs. fs w' = (fs w)(out_dir \<mapsto> Dir, out_path_of (nt w) out_dir recv_path \<mapsto> File bs) \<and>
                   can_store w out_dir (out_path_of (nt w) out_dir recv_path))"
    by auto
  let ?p = "out_path_of (nt w) out_dir recv_path"
  from c show ?thesis
  proof
    assume "fs w' = (fs w)(out_dir \<mapsto> Dir)"
    with assms(2) show ?thesis by (auto split: if_splits)
  next
    assume "\<exists>bs. fs w' = (fs w)(out_dir \<mapsto> Dir, ?p \<mapsto> File bs) \<and> can_store w out_dir ?p"
    then obtain bs where f: "fs w' = (fs w)(out_dir \<mapsto> Dir, ?p \<mapsto> File bs)"
      and cs: "can_store w out_dir ?p" by blast
    from cs have ne: "?p \<noteq> out_dir" by (simp add: can_store_iff)
    show ?thesis
    proof (cases "q = ?p")
      case True
      from can_store_directly_inside [OF cs assms(3)] True have "directly_inside out_dir q" by simp
      moreover from f True have "fs w' q = Some (File bs)" by simp
      moreover from True assms(3) have "q = path_join out_dir (basename (strip recv_path))"
        by (simp add: out_path_of_def os_join_def os_basename_def)
      ultimately show ?thesis using ph by blast
    next
      case False
      with f assms(2) have "q = out_dir" by (auto split: if_splits)
      with f ne show ?thesis by simp
    qed
  qed
qed

section \<open>A batch with a device error\<close>









end
